theory Spec2Isabelle
  imports Main "HOL-Library.AList"
begin

section \<open>The batch translation pipeline of markdown-translator.js\<close>

text \<open>
  The script walks a source directory, sends every markdown document to a translation
  service and writes the answer below \<open>BASE_OUTPUT_DIR/MODEL_DIR_NAME\<close>. The model follows
  the script function by function and keeps its names. What the script gets from its
  platform is modelled first: the POSIX flavour of Node's \<open>path\<close> module, a file system
  tree with modification times behind \<open>fs.promises\<close>, the translation service and the
  console. Strings are lists of code units (\<open>char\<close>, code units 0 to 255).
  Every \<open>async\<close> function is run to completion in program order (the script awaits each
  call), so a function is a state transformer on the \<open>world\<close>.
\<close>

subsection \<open>Node's path module (POSIX)\<close>

text \<open>
  \<open>splitPath\<close> cuts a path at every \<open>/\<close>; \<open>joinSegments\<close> glues segments with \<open>/\<close>.
  \<open>normalizeStep\<close> is one round of the loop of Node's \<open>normalizeString\<close>: the result so far
  is kept as a stack (last kept segment first); an empty segment and \<open>.\<close> are dropped,
  \<open>..\<close> removes the last kept segment unless there is none or it is \<open>..\<close> itself, in
  which case \<open>..\<close> is kept only when \<open>allowAboveRoot\<close> holds.
\<close>

fun splitPath :: "string \<Rightarrow> string list" where
  "splitPath [] = [[]]"
| "splitPath (c # cs) =
     (if c = CHR ''/'' then [] # splitPath cs
      else (case splitPath cs of [] \<Rightarrow> [[c]] | s # ss \<Rightarrow> (c # s) # ss))"

fun joinSegments :: "string list \<Rightarrow> string" where
  "joinSegments [] = []"
| "joinSegments [s] = s"
| "joinSegments (s # t # ss) = s @ ''/'' @ joinSegments (t # ss)"

definition normalizeStep :: "bool \<Rightarrow> string list \<Rightarrow> string \<Rightarrow> string list" where
  "normalizeStep allowAboveRoot res seg =
     (if seg = [] \<or> seg = ''.'' then res
      else if seg = ''..'' then
        (case res of
           [] \<Rightarrow> (if allowAboveRoot then [''..''] else [])
         | prev # below \<Rightarrow>
             (if prev = ''..'' then (if allowAboveRoot then ''..'' # res else res) else below))
      else seg # res)"

definition normalizeSegments :: "bool \<Rightarrow> string list \<Rightarrow> string list" where
  "normalizeSegments allowAboveRoot segs = rev (foldl (normalizeStep allowAboveRoot) [] segs)"

definition normalizeString :: "bool \<Rightarrow> string \<Rightarrow> string" where
  "normalizeString allowAboveRoot path =
     joinSegments (normalizeSegments allowAboveRoot (splitPath path))"

definition isAbsolute :: "string \<Rightarrow> bool" where
  "isAbsolute path = (path \<noteq> [] \<and> hd path = CHR ''/'')"

text \<open>\<open>path.normalize\<close>: the empty path is \<open>.\<close>; a leading and a trailing separator are
  kept.\<close>

definition path_normalize :: "string \<Rightarrow> string" where
  "path_normalize path =
     (if path = [] then ''.''
      else
        (let trailingSeparator = (last path = CHR ''/'');
             p = normalizeString (\<not> isAbsolute path) path
         in if p = [] then (if isAbsolute path then ''/'' else if trailingSeparator then ''./'' else ''.'')
            else (if isAbsolute path then ''/'' else []) @ p @ (if trailingSeparator then ''/'' else [])))"

text \<open>\<open>path.join(...args)\<close>: the non-empty arguments, glued with \<open>/\<close> and normalised.\<close>

definition path_join :: "string list \<Rightarrow> string" where
  "path_join args =
     (let parts = filter (\<lambda>a. a \<noteq> []) args
      in if parts = [] then ''.'' else path_normalize (joinSegments parts))"

text \<open>\<open>path.basename(path)\<close>: the last non-empty segment, trailing separators ignored.\<close>

definition path_basename :: "string \<Rightarrow> string" where
  "path_basename path =
     (let segs = filter (\<lambda>s. s \<noteq> []) (splitPath path)
      in if segs = [] then [] else last segs)"

text \<open>\<open>path.dirname(path)\<close>: Node scans from the right, from the last index down to 1,
  skips trailing separators, then the last segment, and cuts at the separator before it.\<close>

definition path_dirname :: "string \<Rightarrow> string" where
  "path_dirname path =
     (if path = [] then ''.''
      else
        (let r = dropWhile (\<lambda>c. c \<noteq> CHR ''/'') (dropWhile (\<lambda>c. c = CHR ''/'') (rev (tl path)));
             e = length r
         in if e = 0 then (if isAbsolute path then ''/'' else ''.'')
            else if isAbsolute path \<and> e = 1 then ''//''
            else take e path))"

text \<open>\<open>path.resolve(path)\<close> against the working directory of the process (an absolute
  path): \<open>resolveSegments\<close> is the list of its segments from the root, the key under which
  the file system finds the entry.\<close>

definition resolveSegments :: "string \<Rightarrow> string \<Rightarrow> string list" where
  "resolveSegments workingDir path =
     normalizeSegments False (splitPath (if isAbsolute path then path else workingDir @ ''/'' @ path))"

definition path_resolve :: "string \<Rightarrow> string \<Rightarrow> string" where
  "path_resolve workingDir path = ''/'' @ joinSegments (resolveSegments workingDir path)"

text \<open>\<open>path.relative(from, to)\<close>: both are resolved, the common leading segments are
  dropped, every remaining segment of \<open>from\<close> becomes \<open>..\<close>, followed by the rest of \<open>to\<close>.\<close>

fun stripCommon :: "string list \<Rightarrow> string list \<Rightarrow> string list \<times> string list" where
  "stripCommon (a # as) (b # bs) = (if a = b then stripCommon as bs else (a # as, b # bs))"
| "stripCommon as bs = (as, bs)"

definition path_relative :: "string \<Rightarrow> string \<Rightarrow> string \<Rightarrow> string" where
  "path_relative workingDir from to =
     (case stripCommon (resolveSegments workingDir from) (resolveSegments workingDir to) of
        (up, down) \<Rightarrow> joinSegments (replicate (length up) ''..'' @ down))"

text \<open>The name of a directory entry: not empty, without separator, neither \<open>.\<close> nor \<open>..\<close>.
  \<open>properSegment\<close> is what normalisation keeps.\<close>

definition plainName :: "string \<Rightarrow> bool" where
  "plainName s = (s \<noteq> [] \<and> CHR ''/'' \<notin> set s \<and> s \<noteq> ''.'' \<and> s \<noteq> ''..'')"

definition properSegment :: "string \<Rightarrow> bool" where
  "properSegment s = (s \<noteq> [] \<and> s \<noteq> ''.'' \<and> CHR ''/'' \<notin> set s)"

subsection \<open>Configuration\<close>

text \<open>
  The four command line options the pipeline reads (\<open>argv.model\<close>, \<open>argv.source\<close>,
  \<open>argv.output\<close>, \<open>argv.force\<close>).
\<close>

record config =
  MODEL_NAME :: string
  SOURCE_DIR :: string
  BASE_OUTPUT_DIR :: string
  FORCE_TRANSLATE :: bool

text \<open>
  The regular expression class \<open>\w\<close> is \<open>[A-Za-z0-9_]\<close>; the class \<open>[^\w.-]\<close> of
  \<open>MODEL_NAME.replace(/[^\w.-]/g, "_")\<close> is its complement without the dot and the hyphen.
\<close>

definition isWordChar :: "char \<Rightarrow> bool" where
  "isWordChar c =
     (let n = (of_char c :: nat)
      in (65 \<le> n \<and> n \<le> 90) \<or> (97 \<le> n \<and> n \<le> 122) \<or> (48 \<le> n \<and> n \<le> 57) \<or> n = 95)"

definition keptInDirName :: "char \<Rightarrow> bool" where
  "keptInDirName c = (isWordChar c \<or> c = CHR ''.'' \<or> c = CHR ''-'')"

text \<open>\<open>String.prototype.replace\<close> with a global single-character class: every match
  becomes one underscore, every other code unit is kept.\<close>

fun replaceInvalid :: "string \<Rightarrow> string" where
  "replaceInvalid [] = []"
| "replaceInvalid (c # cs) =
     (if keptInDirName c then c # replaceInvalid cs else CHR ''_'' # replaceInvalid cs)"

definition MODEL_DIR_NAME :: "config \<Rightarrow> string" where
  "MODEL_DIR_NAME cfg = replaceInvalid (MODEL_NAME cfg)"

definition OUTPUT_DIR :: "config \<Rightarrow> string" where
  "OUTPUT_DIR cfg = path_join [BASE_OUTPUT_DIR cfg, MODEL_DIR_NAME cfg]"

subsection \<open>The world outside the script\<close>

text \<open>
  The file system is a tree. A file has its content and its modification time; a
  directory has a flag (may it be listed?), its modification time and its entries in the
  order \<open>readdir\<close> reports them; \<open>Dangling\<close> is an entry that is listed but cannot be
  followed (a symbolic link to nothing), so that \<open>stat\<close> on a listed name can fail as it
  can on a real system.
\<close>

datatype node = File string nat | Dir bool nat "(string \<times> node) list" | Dangling

datatype error = ENOENT | ENOTDIR | EISDIR | EACCES | EEXIST | ApiFailure

text \<open>What the script reads of a \<open>Stats\<close> object.\<close>

record stats =
  isDirectory :: bool
  isFile :: bool
  mtime :: nat

text \<open>The lines the script prints, one constructor for each \<open>console.log\<close> and
  \<open>console.error\<close> call (the summary block is one message).\<close>

datatype message =
    DirectoryReadError string
  | FileReadError string
  | TranslationError
  | Saved string
  | SaveError string
  | Processing string
  | SkippedAlreadyTranslated string
  | ProcessingError string
  | Searching string
  | NoneFound
  | Found nat
  | UsingModel string
  | OutputDirectory string
  | ForceNotice
  | Summary nat nat nat
  | Completed
  | MissingSource string

text \<open>Every call that leaves the script, in program order: the calls of \<open>fs.promises\<close>
  with their path arguments, the request to the translation service with the document
  text it carries, the pacing timer, and the console.\<close>

datatype event =
    Readdir string
  | Stat string
  | ReadFile string
  | Access string
  | Mkdir string
  | WriteFile string string
  | GenerateContent string
  | Sleep nat
  | Console message

text \<open>
  The translation service answers a request with a text, with a response that carries no
  text (\<open>response.text\<close> is \<open>undefined\<close>), or it rejects the request (network error, quota).
  Its answer may depend on which request of the process it is and on the document text;
  the instruction that the script puts before the document text is a constant.
\<close>

datatype response = Text string | NoText | Rejected

type_synonym service = "nat \<Rightarrow> string \<Rightarrow> response"

record world =
  root :: node
  cwd :: string
  now :: nat
  requests :: nat
  trace :: "event list"

definition emit :: "event \<Rightarrow> world \<Rightarrow> world" where
  "emit e w = w\<lparr>trace := trace w @ [e]\<rparr>"

definition console :: "message \<Rightarrow> world \<Rightarrow> world" where
  "console m w = emit (Console m) w"

text \<open>Following a resolved path from the root.\<close>

fun lookup :: "node \<Rightarrow> string list \<Rightarrow> node option" where
  "lookup Dangling [] = None"
| "lookup n [] = Some n"
| "lookup (Dir r m es) (s # ss) = (case map_of es s of None \<Rightarrow> None | Some c \<Rightarrow> lookup c ss)"
| "lookup n (s # ss) = None"

text \<open>\<open>fs.mkdir(path, {recursive: true})\<close>: existing directories on the way are kept, missing
  ones are created (a new entry sets the modification time of its directory); anything
  else on the way is an error.\<close>

fun mkdirp :: "nat \<Rightarrow> node \<Rightarrow> string list \<Rightarrow> error + node" where
  "mkdirp t (Dir r m es) [] = Inr (Dir r m es)"
| "mkdirp t n [] = Inl EEXIST"
| "mkdirp t (Dir r m es) (s # ss) =
     (case map_of es s of
        None \<Rightarrow>
          (case mkdirp t (Dir True t []) ss of
             Inl e \<Rightarrow> Inl e
           | Inr c \<Rightarrow> Inr (Dir r t (AList.update s c es)))
      | Some c \<Rightarrow>
          (case mkdirp t c ss of
             Inl e \<Rightarrow> Inl e
           | Inr c' \<Rightarrow> Inr (Dir r m (AList.update s c' es))))"
| "mkdirp t (File c m) (s # ss) = Inl ENOTDIR"
| "mkdirp t Dangling (s # ss) = Inl ENOENT"

text \<open>\<open>fs.writeFile(path, content)\<close>: the directory of the file must exist; the file is
  created or replaced as a whole and stamped with the current time.\<close>

fun writeNode :: "nat \<Rightarrow> string \<Rightarrow> node \<Rightarrow> string list \<Rightarrow> error + node" where
  "writeNode t content (Dir r m es) [] = Inl EISDIR"
| "writeNode t content n [] = Inr (File content t)"
| "writeNode t content (Dir r m es) (s # ss) =
     (case map_of es s of
        None \<Rightarrow>
          (if ss = [] then Inr (Dir r t (AList.update s (File content t) es)) else Inl ENOENT)
      | Some c \<Rightarrow>
          (case writeNode t content c ss of
             Inl e \<Rightarrow> Inl e
           | Inr c' \<Rightarrow> Inr (Dir r m (AList.update s c' es))))"
| "writeNode t content (File c m) (s # ss) = Inl ENOTDIR"
| "writeNode t content Dangling (s # ss) = Inl ENOENT"

text \<open>
  How the operating system resolves a path: component by component, from the root for
  an absolute path and from the working directory otherwise. Each component is taken in
  a directory that exists: the empty component and \<open>.\<close> stay there, \<open>..\<close> goes to the
  parent (the root is its own parent), a name goes to the entry of that name, which need
  not exist when it is the last component. The empty path resolves to nothing. A path
  with a missing or non-directory component before \<open>..\<close> therefore fails, although
  \<open>path.normalize\<close> would cancel the two.
\<close>

definition directoryAt :: "node \<Rightarrow> string list \<Rightarrow> bool" where
  "directoryAt r key = (case lookup r key of Some (Dir rd m es) \<Rightarrow> True | _ \<Rightarrow> False)"

fun walk :: "node \<Rightarrow> string list \<Rightarrow> string list \<Rightarrow> string list option" where
  "walk r cur [] = Some cur"
| "walk r cur (s # ss) =
     (if directoryAt r cur then
        (if s = [] \<or> s = ''.'' then walk r cur ss
         else if s = ''..'' then walk r (butlast cur) ss
         else walk r (cur @ [s]) ss)
      else None)"

definition kernelKey :: "node \<Rightarrow> string \<Rightarrow> string \<Rightarrow> string list option" where
  "kernelKey r workingDir path =
     (if path = [] then None
      else walk r (if isAbsolute path then [] else normalizeSegments False (splitPath workingDir))
             (splitPath path))"

definition nodeAt :: "world \<Rightarrow> string \<Rightarrow> node option" where
  "nodeAt w path =
     (case kernelKey (root w) (cwd w) path of
        None \<Rightarrow> None
      | Some key \<Rightarrow> lookup (root w) key)"

text \<open>The calls of \<open>fs.promises\<close>. A rejected promise is the result \<open>Inl\<close>.\<close>

definition fs_readdir :: "string \<Rightarrow> world \<Rightarrow> (error + string list) \<times> world" where
  "fs_readdir path w =
     ((case nodeAt w path of
         None \<Rightarrow> Inl ENOENT
       | Some (Dir r m es) \<Rightarrow> if r then Inr (map fst es) else Inl EACCES
       | Some n \<Rightarrow> Inl ENOTDIR),
      emit (Readdir path) w)"

definition statOf :: "node option \<Rightarrow> error + stats" where
  "statOf n =
     (case n of
        Some (File c m) \<Rightarrow> Inr \<lparr>isDirectory = False, isFile = True, mtime = m\<rparr>
      | Some (Dir r m es) \<Rightarrow> Inr \<lparr>isDirectory = True, isFile = False, mtime = m\<rparr>
      | _ \<Rightarrow> Inl ENOENT)"

definition fs_stat :: "string \<Rightarrow> world \<Rightarrow> (error + stats) \<times> world" where
  "fs_stat path w = (statOf (nodeAt w path), emit (Stat path) w)"

definition fs_readFile :: "string \<Rightarrow> world \<Rightarrow> (error + string) \<times> world" where
  "fs_readFile path w =
     ((case nodeAt w path of
         Some (File c m) \<Rightarrow> Inr c
       | Some (Dir r m es) \<Rightarrow> Inl EISDIR
       | _ \<Rightarrow> Inl ENOENT),
      emit (ReadFile path) w)"

definition fs_access :: "string \<Rightarrow> world \<Rightarrow> (error + unit) \<times> world" where
  "fs_access path w =
     ((case nodeAt w path of None \<Rightarrow> Inl ENOENT | Some n \<Rightarrow> Inr ()), emit (Access path) w)"

text \<open>
  The recursive \<open>fs.mkdir\<close> of Node works on the path string: it calls \<open>mkdir\<close>, and on
  a missing parent first makes \<open>path.dirname\<close> of it. The script hands it results of
  \<open>path.join\<close> and \<open>path.dirname\<close> only, which are normalised; the directories it visits
  are then the prefixes of the resolved path.
\<close>

definition fs_mkdir :: "string \<Rightarrow> world \<Rightarrow> (error + unit) \<times> world" where
  "fs_mkdir path w =
     (case mkdirp (now w) (root w) (resolveSegments (cwd w) path) of
        Inl e \<Rightarrow> (Inl e, emit (Mkdir path) w)
      | Inr r' \<Rightarrow> (Inr (), emit (Mkdir path) (w\<lparr>root := r'\<rparr>)))"

definition fs_writeFile :: "string \<Rightarrow> string \<Rightarrow> world \<Rightarrow> (error + unit) \<times> world" where
  "fs_writeFile path content w =
     (case kernelKey (root w) (cwd w) path of
        None \<Rightarrow> (Inl ENOENT, emit (WriteFile path content) w)
      | Some key \<Rightarrow>
          (case writeNode (now w) content (root w) key of
             Inl e \<Rightarrow> (Inl e, emit (WriteFile path content) w)
           | Inr r' \<Rightarrow> (Inr (), emit (WriteFile path content) (w\<lparr>root := r'\<rparr>))))"

text \<open>\<open>await new Promise((resolve) => setTimeout(resolve, ms))\<close>: the clock moves on.\<close>

definition sleep :: "nat \<Rightarrow> world \<Rightarrow> world" where
  "sleep ms w = emit (Sleep ms) (w\<lparr>now := now w + ms\<rparr>)"

text \<open>\<open>ai.models.generateContent\<close>: one request, answered by the service.\<close>

definition generateContent :: "service \<Rightarrow> string \<Rightarrow> world \<Rightarrow> response \<times> world" where
  "generateContent ai text w =
     (ai (requests w) text, emit (GenerateContent text) (w\<lparr>requests := requests w + 1\<rparr>))"

definition endsWith :: "string \<Rightarrow> string \<Rightarrow> bool" where
  "endsWith s suffix =
     (length suffix \<le> length s \<and> drop (length s - length suffix) s = suffix)"

subsection \<open>The script\<close>

text \<open>
  \<open>findMarkdownFiles\<close>: the body of the \<open>try\<close> is the \<open>for\<close> loop \<open>scanEntries\<close> over
  the names that \<open>readdir\<close> returned; a rejected \<open>readdir\<close> or \<open>stat\<close> leaves the loop
  (\<open>Inl\<close>) and the \<open>catch\<close> prints the message and returns the empty array. The recursion
  follows paths, not the tree, so it carries fuel: \<open>None\<close> is a run that did not come to
  an end within the fuel.
\<close>

fun findMarkdownFiles :: "nat \<Rightarrow> string \<Rightarrow> world \<Rightarrow> (string list \<times> world) option"
  and scanEntries ::
    "nat \<Rightarrow> string \<Rightarrow> string list \<Rightarrow> string list \<Rightarrow> world \<Rightarrow> ((error + string list) \<times> world) option"
where
  "findMarkdownFiles 0 directory w = None"
| "findMarkdownFiles (Suc fuel) directory w =
     (case fs_readdir directory w of
        (Inl e, w1) \<Rightarrow> Some ([], console (DirectoryReadError directory) w1)
      | (Inr files, w1) \<Rightarrow>
          (case scanEntries fuel directory files [] w1 of
             None \<Rightarrow> None
           | Some (Inl e, w2) \<Rightarrow> Some ([], console (DirectoryReadError directory) w2)
           | Some (Inr markdownFiles, w2) \<Rightarrow> Some (markdownFiles, w2)))"
| "scanEntries fuel directory [] markdownFiles w = Some (Inr markdownFiles, w)"
| "scanEntries fuel directory (file # files) markdownFiles w =
     (let filePath = path_join [directory, file]
      in case fs_stat filePath w of
           (Inl e, w1) \<Rightarrow> Some (Inl e, w1)
         | (Inr stat, w1) \<Rightarrow>
             if isDirectory stat then
               (case findMarkdownFiles fuel filePath w1 of
                  None \<Rightarrow> None
                | Some (subFiles, w2) \<Rightarrow>
                    scanEntries fuel directory files (markdownFiles @ subFiles) w2)
             else if endsWith file ''.md'' \<or> endsWith file ''.markdown'' then
               scanEntries fuel directory files (markdownFiles @ [filePath]) w1
             else scanEntries fuel directory files markdownFiles w1)"

definition readMarkdownFile :: "string \<Rightarrow> world \<Rightarrow> string \<times> world" where
  "readMarkdownFile filePath w =
     (case fs_readFile filePath w of
        (Inr content, w1) \<Rightarrow> (content, w1)
      | (Inl e, w1) \<Rightarrow> ([], console (FileReadError filePath) w1))"

text \<open>\<open>isAlreadyTranslated\<close>: both \<open>stat\<close> calls stand in one \<open>try\<close>; the \<open>catch\<close> answers
  \<open>false\<close>.\<close>

definition isAlreadyTranslated :: "config \<Rightarrow> string \<Rightarrow> world \<Rightarrow> bool \<times> world" where
  "isAlreadyTranslated cfg filePath w =
     (let fileName = path_basename filePath;
          outputPath = path_join [OUTPUT_DIR cfg, fileName]
      in case fs_stat outputPath w of
           (Inl e, w1) \<Rightarrow> (False, w1)
         | (Inr outputStat, w1) \<Rightarrow>
             (case fs_stat filePath w1 of
                (Inl e, w2) \<Rightarrow> (False, w2)
              | (Inr sourceStat, w2) \<Rightarrow>
                  (isFile outputStat \<and> mtime outputStat \<ge> mtime sourceStat, w2)))"

text \<open>The answer of \<open>isAlreadyTranslated\<close> as a relation between the entry at the consulted
  output path and the entry at the source path: both can be examined, the first is a
  regular file, and it is not older than the second.\<close>

definition currentAt :: "world \<Rightarrow> string \<Rightarrow> string \<Rightarrow> bool" where
  "currentAt w outputPath filePath =
     (case statOf (nodeAt w outputPath) of
        Inl e \<Rightarrow> False
      | Inr outputStat \<Rightarrow>
          (case statOf (nodeAt w filePath) of
             Inl e \<Rightarrow> False
           | Inr sourceStat \<Rightarrow> isFile outputStat \<and> mtime sourceStat \<le> mtime outputStat))"

text \<open>What \<open>translateToJapanese\<close> returns: a string, or \<open>undefined\<close> when the response has
  no text. \<open>truthy\<close> is the test of \<open>if (translated)\<close>.\<close>

datatype jsvalue = Str string | Undefined

fun truthy :: "jsvalue \<Rightarrow> bool" where
  "truthy (Str s) = (s \<noteq> [])"
| "truthy Undefined = False"

fun stringOf :: "jsvalue \<Rightarrow> string" where
  "stringOf (Str s) = s"
| "stringOf Undefined = ''undefined''"

definition translateToJapanese :: "service \<Rightarrow> string \<Rightarrow> world \<Rightarrow> jsvalue \<times> world" where
  "translateToJapanese ai text w =
     (case generateContent ai text w of
        (Text t, w1) \<Rightarrow> (Str t, w1)
      | (NoText, w1) \<Rightarrow> (Undefined, w1)
      | (Rejected, w1) \<Rightarrow> (Str [], console TranslationError w1))"

text \<open>The \<open>outputPath\<close> of \<open>saveTranslatedFile\<close>:
  \<open>path.join(OUTPUT_DIR, path.relative(SOURCE_DIR, filePath))\<close>.\<close>

definition outputPathOf :: "config \<Rightarrow> string \<Rightarrow> string \<Rightarrow> string" where
  "outputPathOf cfg workingDir filePath =
     (let relativePath = path_relative workingDir (SOURCE_DIR cfg) filePath
      in path_join [OUTPUT_DIR cfg, relativePath])"

definition saveTranslatedFile :: "config \<Rightarrow> string \<Rightarrow> string \<Rightarrow> world \<Rightarrow> world" where
  "saveTranslatedFile cfg filePath content w =
     (case fs_mkdir (OUTPUT_DIR cfg) w of
        (Inl e, w1) \<Rightarrow> console (SaveError filePath) w1
      | (Inr u, w1) \<Rightarrow>
          (let outputPath = outputPathOf cfg (cwd w1) filePath
           in case fs_mkdir (path_dirname outputPath) w1 of
                (Inl e, w2) \<Rightarrow> console (SaveError filePath) w2
              | (Inr u, w2) \<Rightarrow>
                  (case fs_writeFile outputPath content w2 of
                     (Inl e, w3) \<Rightarrow> console (SaveError filePath) w3
                   | (Inr u, w3) \<Rightarrow> console (Saved outputPath) w3)))"

record summary =
  translatedCount :: nat
  skippedCount :: nat

text \<open>
  \<open>processFile\<close> is one round of the \<open>for\<close> loop of \<open>processBatchWithDelay\<close>, on the
  counters and the world. Each \<open>continue\<close> is a branch that returns before the delay.
  Every function the round calls catches its own errors, so the \<open>catch\<close> of the round is
  never entered and has no branch here.
\<close>

definition processFile :: "config \<Rightarrow> service \<Rightarrow> summary \<times> world \<Rightarrow> string \<Rightarrow> summary \<times> world" where
  "processFile cfg ai state file =
     (let counts = fst state;
          w0 = console (Processing file) (snd state);
          (skip, w1) = (if FORCE_TRANSLATE cfg then (False, w0) else isAlreadyTranslated cfg file w0)
      in if skip then
           (counts\<lparr>skippedCount := skippedCount counts + 1\<rparr>,
            console (SkippedAlreadyTranslated file) w1)
         else
           (let (content, w2) = readMarkdownFile file w1
            in if content = [] then (counts, w2)
               else
                 (let (translated, w3) = translateToJapanese ai content w2;
                      (counts', w4) =
                        (if truthy translated then
                           (counts\<lparr>translatedCount := translatedCount counts + 1\<rparr>,
                            saveTranslatedFile cfg file (stringOf translated) w3)
                         else (counts, w3))
                  in (counts', sleep 1000 w4))))"

definition processBatchWithDelay :: "config \<Rightarrow> service \<Rightarrow> string list \<Rightarrow> world \<Rightarrow> summary \<times> world" where
  "processBatchWithDelay cfg ai files w =
     foldl (processFile cfg ai) (\<lparr>translatedCount = 0, skippedCount = 0\<rparr>, w) files"

definition translateMarkdownFiles :: "nat \<Rightarrow> config \<Rightarrow> service \<Rightarrow> world \<Rightarrow> world option" where
  "translateMarkdownFiles fuel cfg ai w =
     (case findMarkdownFiles fuel (SOURCE_DIR cfg) (console (Searching (SOURCE_DIR cfg)) w) of
        None \<Rightarrow> None
      | Some (markdownFiles, w1) \<Rightarrow>
          if length markdownFiles = 0 then Some (console NoneFound w1)
          else
            (let w2 = console (OutputDirectory (OUTPUT_DIR cfg))
                        (console (UsingModel (MODEL_NAME cfg))
                          (console (Found (length markdownFiles)) w1));
                 w3 = (if FORCE_TRANSLATE cfg then console ForceNotice w2 else w2);
                 (counts, w4) = processBatchWithDelay cfg ai markdownFiles w3
             in Some (console Completed
                  (console (Summary (length markdownFiles) (translatedCount counts)
                     (skippedCount counts)) w4))))"

text \<open>How a run ends: \<open>main\<close> returns, or the process exits with a code.\<close>

datatype exit = Returned | Exit nat

definition checkSourceDirectory :: "nat \<Rightarrow> config \<Rightarrow> service \<Rightarrow> world \<Rightarrow> (exit \<times> world) option" where
  "checkSourceDirectory fuel cfg ai w =
     (case fs_access (SOURCE_DIR cfg) w of
        (Inl e, w1) \<Rightarrow> Some (Exit 1, console (MissingSource (SOURCE_DIR cfg)) w1)
      | (Inr u, w1) \<Rightarrow>
          (case translateMarkdownFiles fuel cfg ai w1 of
             None \<Rightarrow> None
           | Some w2 \<Rightarrow> Some (Returned, w2)))"

definition main :: "nat \<Rightarrow> config \<Rightarrow> service \<Rightarrow> world \<Rightarrow> (exit \<times> world) option" where
  "main fuel cfg ai w = checkSourceDirectory fuel cfg ai w"

text \<open>
  What a scan can meet: the names of the entries of every directory are plain, as
  \<open>readdir\<close> returns them (never empty, \<open>.\<close>, \<open>..\<close> or with a separator). \<open>depth\<close> is
  the number of directories nested in each other.
\<close>

fun wellFormed :: "node \<Rightarrow> bool" where
  "wellFormed (Dir r m es) = list_all (\<lambda>e. plainName (fst e) \<and> wellFormed (snd e)) es"
| "wellFormed n = True"

fun depth :: "node \<Rightarrow> nat" where
  "depth (Dir r m es) = Suc (foldr (\<lambda>e d. max (depth (snd e)) d) es 0)"
| "depth n = 0"

text \<open>The path under which \<open>findMarkdownFiles\<close> reports an entry that lies \<open>names\<close> below
  \<open>directory\<close>: one \<open>path.join(directory, file)\<close> for each level.\<close>

definition pathBelow :: "string \<Rightarrow> string list \<Rightarrow> string" where
  "pathBelow directory names = foldl (\<lambda>dir file. path_join [dir, file]) directory names"

text \<open>A normalised path of plain names, relative or absolute.\<close>

definition plainPath :: "string \<Rightarrow> bool" where
  "plainPath p = list_all plainName (splitPath (if isAbsolute p then tl p else p))"

text \<open>A response the script can use: a text that is not empty.\<close>

definition usable :: "response \<Rightarrow> bool" where
  "usable r = (case r of Text t \<Rightarrow> t \<noteq> [] | NoText \<Rightarrow> False | Rejected \<Rightarrow> False)"

text \<open>The name under which \<open>isAlreadyTranslated\<close> looks for the translation of a file.\<close>

definition consultedPath :: "config \<Rightarrow> string \<Rightarrow> string" where
  "consultedPath cfg filePath = path_join [OUTPUT_DIR cfg, path_basename filePath]"

text \<open>The events a run adds to the trace, and three kinds of event.\<close>

definition added :: "world \<Rightarrow> world \<Rightarrow> event list" where
  "added w w' = drop (length (trace w)) (trace w')"

fun isRequest :: "event \<Rightarrow> bool" where
  "isRequest (GenerateContent t) = True"
| "isRequest e = False"

fun isSleep :: "event \<Rightarrow> bool" where
  "isSleep (Sleep ms) = True"
| "isSleep e = False"

fun isStat :: "event \<Rightarrow> bool" where
  "isStat (Stat p) = True"
| "isStat e = False"

fun isRead :: "event \<Rightarrow> bool" where
  "isRead (ReadFile p) = True"
| "isRead e = False"

fun isWrite :: "event \<Rightarrow> bool" where
  "isWrite (Mkdir p) = True"
| "isWrite (WriteFile p c) = True"
| "isWrite e = False"



subsection \<open>Concrete configurations and worlds\<close>

text \<open>A model name with a separator and a blank.\<close>

definition spacedCfg :: config where
  "spacedCfg = \<lparr>MODEL_NAME = ''models/gemini 2.0'', SOURCE_DIR = ''src'',
     BASE_OUTPUT_DIR = ''out'', FORCE_TRANSLATE = False\<rparr>"

text \<open>A source tree \<open>/w/src\<close> with one document in a subdirectory, whose translation
  \<open>/w/out/m1/a/doc.md\<close> was written after the document was last changed.\<close>

definition docsCfg :: config where
  "docsCfg = \<lparr>MODEL_NAME = ''m1'', SOURCE_DIR = ''src'', BASE_OUTPUT_DIR = ''out'',
     FORCE_TRANSLATE = False\<rparr>"

definition nestedRoot :: node where
  "nestedRoot =
     Dir True 0 [(''w'', Dir True 7
       [(''src'', Dir True 3 [(''a'', Dir True 3 [(''doc.md'', File ''en'' 3)])]),
        (''out'', Dir True 7 [(''m1'', Dir True 7 [(''a'', Dir True 7 [(''doc.md'', File ''ja'' 7)])])])])]"

definition nestedWorld :: world where
  "nestedWorld = \<lparr>root = nestedRoot, cwd = ''/w'', now = 9, requests = 0, trace = []\<rparr>"

text \<open>Three documents directly in the source root, nothing translated yet.\<close>

definition flatRoot :: node where
  "flatRoot =
     Dir True 0 [(''w'', Dir True 2
       [(''src'', Dir True 2
          [(''one.md'', File ''a1'' 1), (''two.md'', File ''b2'' 1), (''three.md'', File ''c3'' 2)])])]"

definition flatWorld :: world where
  "flatWorld = \<lparr>root = flatRoot, cwd = ''/w'', now = 5, requests = 0, trace = []\<rparr>"

definition threeFiles :: "string list" where
  "threeFiles = [''src/one.md'', ''src/two.md'', ''src/three.md'']"

text \<open>One document in the source root with a translation that is newer.\<close>

definition freshRoot :: node where
  "freshRoot =
     Dir True 0 [(''w'', Dir True 7
       [(''src'', Dir True 3 [(''doc.md'', File ''en'' 3)]),
        (''out'', Dir True 7 [(''m1'', Dir True 7 [(''doc.md'', File ''ja'' 7)])])])]"

definition freshWorld :: world where
  "freshWorld = \<lparr>root = freshRoot, cwd = ''/w'', now = 9, requests = 0, trace = []\<rparr>"

definition forceCfg :: config where
  "forceCfg = \<lparr>MODEL_NAME = ''m1'', SOURCE_DIR = ''src'', BASE_OUTPUT_DIR = ''out'',
     FORCE_TRANSLATE = True\<rparr>"

text \<open>Services: one that answers every request, one that rejects the second request of
  the process, one that rejects the first.\<close>

definition echo :: service where
  "echo i t = Text (''ja:'' @ t)"


definition failFirst :: service where
  "failFirst i t = (if i = 0 then Rejected else Text (''ja:'' @ t))"

definition noCounts :: summary where
  "noCounts = \<lparr>translatedCount = 0, skippedCount = 0\<rparr>"

text \<open>A model name that the sanitising leaves as it is, and that is no directory name.\<close>

definition dotsCfg :: config where
  "dotsCfg = \<lparr>MODEL_NAME = ''..'', SOURCE_DIR = ''src'', BASE_OUTPUT_DIR = ''out'',
     FORCE_TRANSLATE = False\<rparr>"

text \<open>A source tree with an unreadable directory between two readable ones, a link to
  nothing, and a source root that cannot be read at all.\<close>

definition lockedRoot :: node where
  "lockedRoot =
     Dir True 1 [(''w'', Dir True 1 [(''src'', Dir True 1
       [(''a'', Dir True 1 [(''x.md'', File ''x'' 1)]),
        (''locked'', Dir False 1 [(''y.md'', File ''y'' 1)]),
        (''b'', Dir True 1 [(''z.markdown'', File ''z'' 1), (''notes.txt'', File ''n'' 1)])])])]"

definition lockedWorld :: world where
  "lockedWorld = \<lparr>root = lockedRoot, cwd = ''/w'', now = 5, requests = 0, trace = []\<rparr>"

definition brokenRoot :: node where
  "brokenRoot =
     Dir True 1 [(''w'', Dir True 1 [(''src'', Dir True 1
       [(''a'', Dir True 1 [(''x.md'', File ''x'' 1), (''gone'', Dangling)]),
        (''b.md'', File ''b'' 1)])])]"

definition brokenWorld :: world where
  "brokenWorld = \<lparr>root = brokenRoot, cwd = ''/w'', now = 5, requests = 0, trace = []\<rparr>"

definition unreadableRoot :: node where
  "unreadableRoot =
     Dir True 1 [(''w'', Dir True 1 [(''src'', Dir False 1 [(''doc.md'', File ''en'' 1)])])]"

definition unreadableWorld :: world where
  "unreadableWorld = \<lparr>root = unreadableRoot, cwd = ''/w'', now = 5, requests = 0, trace = []\<rparr>"

text \<open>A source root that names nothing, and one that \<open>path.normalize\<close> would turn into
  the existing \<open>src\<close> although \<open>src/missing\<close> does not exist.\<close>

definition missingCfg :: config where
  "missingCfg = \<lparr>MODEL_NAME = ''m1'', SOURCE_DIR = ''nowhere'', BASE_OUTPUT_DIR = ''out'',
     FORCE_TRANSLATE = False\<rparr>"

definition throughMissingCfg :: config where
  "throughMissingCfg = \<lparr>MODEL_NAME = ''m1'', SOURCE_DIR = ''src/missing/..'',
     BASE_OUTPUT_DIR = ''out'', FORCE_TRANSLATE = False\<rparr>"

subsection \<open>Facts about paths\<close>

lemma splitPath_not_Nil: "splitPath s \<noteq> []"
  by (induction s) (auto split: list.splits)

lemma splitPath_no_slash: "x \<in> set (splitPath s) \<Longrightarrow> CHR ''/'' \<notin> set x"
  by (induction s arbitrary: x) (auto split: list.splits if_splits)

lemma splitPath_plain: "CHR ''/'' \<notin> set s \<Longrightarrow> splitPath s = [s]"
  by (induction s) auto

lemma splitPath_append: "splitPath (a @ CHR ''/'' # b) = splitPath a @ splitPath b"
  using splitPath_not_Nil by (induction a) (auto split: list.splits)

lemma joinSegments_Cons: "ys \<noteq> [] \<Longrightarrow> joinSegments (x # ys) = x @ CHR ''/'' # joinSegments ys"
  by (cases ys) auto

lemma joinSegments_snoc: "xs \<noteq> [] \<Longrightarrow> joinSegments (xs @ [y]) = joinSegments xs @ CHR ''/'' # y"
  by (induction xs rule: joinSegments.induct) auto

lemma splitPath_joinSegments:
  "xs \<noteq> [] \<Longrightarrow> \<forall>x \<in> set xs. CHR ''/'' \<notin> set x \<Longrightarrow> splitPath (joinSegments xs) = xs"
proof (induction xs rule: joinSegments.induct)
  case 1
  then show ?case by simp
next
  case (2 s)
  then show ?case by (simp add: splitPath_plain)
next
  case (3 s t ss)
  have "splitPath (s @ CHR ''/'' # joinSegments (t # ss)) = splitPath s @ splitPath (joinSegments (t # ss))"
    by (rule splitPath_append)
  with 3 show ?case by (simp add: splitPath_plain)
qed

lemma normalizeStep_plain: "plainName n \<Longrightarrow> normalizeStep b res n = n # res"
  by (simp add: normalizeStep_def plainName_def)

lemma normalizeStep_skip [simp]: "normalizeStep b res [] = res" "normalizeStep b res ''.'' = res"
  by (simp_all add: normalizeStep_def)

lemma foldl_normalizeStep_plain:
  "list_all plainName ns \<Longrightarrow> foldl (normalizeStep b) res ns = rev ns @ res"
  by (induction ns arbitrary: res) (auto simp: normalizeStep_plain)

lemma normalizeStep_proper:
  "list_all properSegment res \<Longrightarrow> CHR ''/'' \<notin> set seg \<Longrightarrow>
     list_all properSegment (normalizeStep b res seg)"
  by (auto simp: normalizeStep_def properSegment_def split: list.splits)

lemma foldl_normalizeStep_proper:
  "list_all properSegment res \<Longrightarrow> \<forall>x \<in> set segs. CHR ''/'' \<notin> set x \<Longrightarrow>
     list_all properSegment (foldl (normalizeStep b) res segs)"
  by (induction segs arbitrary: res) (auto simp: normalizeStep_proper)

lemma normalizeStep_nonempty:
  "\<forall>x \<in> set res. x \<noteq> [] \<and> x \<noteq> ''.'' \<Longrightarrow> \<forall>x \<in> set (normalizeStep b res seg). x \<noteq> [] \<and> x \<noteq> ''.''"
  by (auto simp: normalizeStep_def split: list.splits)

lemma foldl_normalizeStep_nonempty:
  "\<forall>x \<in> set res. x \<noteq> [] \<and> x \<noteq> ''.'' \<Longrightarrow>
     \<forall>x \<in> set (foldl (normalizeStep b) res segs). x \<noteq> [] \<and> x \<noteq> ''.''"
proof (induction segs arbitrary: res)
  case Nil
  then show ?case by simp
next
  case (Cons s segs)
  show ?case using Cons.IH [OF normalizeStep_nonempty [OF Cons.prems]] by simp
qed

lemma renormalize:
  "b' \<or> (\<not> b \<and> st0 = []) \<Longrightarrow>
     foldl (normalizeStep b) st0 (rev (foldl (normalizeStep b') [] segs)) =
     foldl (normalizeStep b) st0 segs"
proof (induction segs rule: rev_induct)
  case Nil
  then show ?case by simp
next
  case (snoc y ys)
  let ?R = "foldl (normalizeStep b') [] ys"
  have IH: "foldl (normalizeStep b) st0 (rev ?R) = foldl (normalizeStep b) st0 ys"
    using snoc by simp
  have ne: "\<forall>x \<in> set ?R. x \<noteq> [] \<and> x \<noteq> ''.''"
    by (rule foldl_normalizeStep_nonempty) simp
  show ?case
  proof (cases "y = [] \<or> y = ''.''")
    case True
    then show ?thesis using IH by auto
  next
    case False
    note y = this
    show ?thesis
    proof (cases "y = ''..''")
      case False
      with y have "normalizeStep b' ?R y = y # ?R" by (simp add: normalizeStep_def)
      then show ?thesis using IH by simp
    next
      case True
      show ?thesis
      proof (cases ?R)
        case Nil
        with IH have e: "foldl (normalizeStep b) st0 ys = st0" by simp
        show ?thesis
        proof (cases b')
          case True
          with Nil \<open>y = ''..''\<close> have "normalizeStep b' ?R y = [''..'']" by (simp add: normalizeStep_def)
          then show ?thesis using e \<open>y = ''..''\<close> by simp
        next
          case False
          with snoc.prems have nb: "\<not> b" "st0 = []" by auto
          from False Nil \<open>y = ''..''\<close> have "normalizeStep b' ?R y = []" by (simp add: normalizeStep_def)
          then have l: "foldl (normalizeStep b) st0 (rev (foldl (normalizeStep b') [] (ys @ [y]))) = st0"
            by simp
          have "normalizeStep b st0 y = []" using nb \<open>y = ''..''\<close> by (simp add: normalizeStep_def)
          then have "foldl (normalizeStep b) st0 (ys @ [y]) = []" using e by simp
          with l nb show ?thesis by simp
        qed
      next
        case (Cons p below)
        show ?thesis
        proof (cases "p = ''..''")
          case True
          show ?thesis
          proof (cases b')
            case True
            with Cons \<open>p = ''..''\<close> \<open>y = ''..''\<close> have "normalizeStep b' ?R y = ''..'' # ?R"
              by (simp add: normalizeStep_def)
            then show ?thesis using IH \<open>y = ''..''\<close> by simp
          next
            case False
            have "list_all (\<lambda>x. x \<noteq> ''..'') (foldl (normalizeStep False) res zs)" if "list_all (\<lambda>x. x \<noteq> ''..'') res" for res zs
              using that by (induction zs arbitrary: res) (auto simp: normalizeStep_def split: list.splits)
            from this [of "[]" ys] False Cons \<open>p = ''..''\<close> show ?thesis by simp
          qed
        next
          case False
          with Cons \<open>y = ''..''\<close> have s: "normalizeStep b' ?R y = below" by (simp add: normalizeStep_def)
          from ne Cons have p: "p \<noteq> []" "p \<noteq> ''.''" by auto
          let ?Z = "foldl (normalizeStep b) st0 (rev below)"
          have "foldl (normalizeStep b) st0 (rev ?R) = normalizeStep b ?Z p"
            using Cons by simp
          also have "\<dots> = p # ?Z" using p False by (simp add: normalizeStep_def)
          finally have "foldl (normalizeStep b) st0 ys = p # ?Z" using IH by simp
          then have "foldl (normalizeStep b) st0 (ys @ [y]) = ?Z"
            using \<open>y = ''..''\<close> False by (simp add: normalizeStep_def)
          with s show ?thesis by simp
        qed
      qed
    qed
  qed
qed


lemma foldl_normalizeStep_skip:
  "\<forall>x \<in> set xs. x = [] \<or> x = ''.'' \<Longrightarrow> foldl (normalizeStep b) st xs = st"
proof (induction xs arbitrary: st)
  case Nil
  then show ?case by simp
next
  case (Cons x xs)
  then have "normalizeStep b st x = st" by (auto simp: normalizeStep_def)
  with Cons show ?case by simp
qed

lemma joinSegments_eq_Nil: "\<forall>x \<in> set xs. x \<noteq> [] \<Longrightarrow> joinSegments xs = [] \<longleftrightarrow> xs = []"
  by (induction xs rule: joinSegments.induct) auto

lemma normalizeSegments_proper:
  "list_all properSegment (normalizeSegments b (splitPath p))"
  unfolding normalizeSegments_def
  using foldl_normalizeStep_proper [of "[]" "splitPath p" b] splitPath_no_slash [of _ p]
  by simp

lemma splitPath_slash_first: "splitPath (CHR ''/'' # x) = [] # splitPath x"
  by simp

lemma splitPath_slash_last: "splitPath (x @ ''/'') = splitPath x @ [[]]"
  using splitPath_append [of x "[]"] by simp

lemma foldl_normalizeStep_normalizeString:
  assumes "b' \<or> (\<not> b \<and> st0 = [])"
  shows "foldl (normalizeStep b) st0 (splitPath (normalizeString b' p)) =
         foldl (normalizeStep b) st0 (splitPath p)"
proof -
  let ?N = "normalizeSegments b' (splitPath p)"
  have pr: "list_all properSegment ?N" by (rule normalizeSegments_proper)
  have re: "foldl (normalizeStep b) st0 ?N = foldl (normalizeStep b) st0 (splitPath p)"
    unfolding normalizeSegments_def using renormalize [OF assms] .
  show ?thesis
  proof (cases "?N = []")
    case True
    then have "normalizeString b' p = []" by (simp add: normalizeString_def)
    with re True show ?thesis by simp
  next
    case False
    from pr have "\<forall>x \<in> set ?N. CHR ''/'' \<notin> set x"
      by (auto simp: list_all_iff properSegment_def)
    with False have "splitPath (normalizeString b' p) = ?N"
      by (simp add: normalizeString_def splitPath_joinSegments)
    with re show ?thesis by simp
  qed
qed

lemma normalizeString_eq_Nil:
  "normalizeString b p = [] \<longleftrightarrow> normalizeSegments b (splitPath p) = []"
  unfolding normalizeString_def
  using normalizeSegments_proper [of b p]
  by (intro joinSegments_eq_Nil) (auto simp: list_all_iff properSegment_def)

lemma isAbsolute_normalize: "isAbsolute (path_normalize p) = isAbsolute p"
proof (cases "p = []")
  case True
  then show ?thesis by (simp add: path_normalize_def isAbsolute_def)
next
  case False
  let ?N = "normalizeSegments (\<not> isAbsolute p) (splitPath p)"
  have pr: "list_all properSegment ?N" by (rule normalizeSegments_proper)
  have "hd (normalizeString True p) \<noteq> CHR ''/''" if "normalizeString True p \<noteq> []"
  proof -
    from that obtain x xs where N: "normalizeSegments True (splitPath p) = x # xs"
      by (cases "normalizeSegments True (splitPath p)") (auto simp: normalizeString_def)
    from normalizeSegments_proper [of True p] N have "x \<noteq> []" "CHR ''/'' \<notin> set x"
      by (auto simp: properSegment_def)
    then have "hd (joinSegments (x # xs)) = hd x \<and> hd x \<noteq> CHR ''/''"
      by (cases xs; cases x) auto
    with N show ?thesis by (simp add: normalizeString_def)
  qed
  with False show ?thesis
    by (auto simp: path_normalize_def isAbsolute_def Let_def)
qed

lemma foldl_normalizeStep_normalize:
  assumes "\<not> isAbsolute p \<or> (\<not> b \<and> st0 = [])"
  shows "foldl (normalizeStep b) st0 (splitPath (path_normalize p)) =
         foldl (normalizeStep b) st0 (splitPath p)"
proof (cases "p = []")
  case True
  then show ?thesis by (simp add: path_normalize_def)
next
  case False
  let ?s = "normalizeString (\<not> isAbsolute p) p"
  have c: "(\<not> isAbsolute p) \<or> (\<not> b \<and> st0 = [])" using assms .
  have re: "foldl (normalizeStep b) st0 (splitPath ?s) = foldl (normalizeStep b) st0 (splitPath p)"
    by (rule foldl_normalizeStep_normalizeString) (use c in simp)
  show ?thesis
  proof (cases "?s = []")
    case True
    then have "foldl (normalizeStep b) st0 (splitPath (path_normalize p)) = st0"
      using False by (simp add: path_normalize_def Let_def)
    moreover from True re have "foldl (normalizeStep b) st0 (splitPath p) = st0" by simp
    ultimately show ?thesis by simp
  next
    case ne: False
    have "splitPath (path_normalize p) =
            (if isAbsolute p then [[]] else []) @ splitPath ?s @ (if last p = CHR ''/'' then [[]] else [])"
      using False ne by (simp add: path_normalize_def Let_def splitPath_slash_last)
    then show ?thesis using re by (cases "isAbsolute p") simp_all
  qed
qed


lemma normalizeSegments_snoc_plain:
  "plainName n \<Longrightarrow> normalizeSegments b (xs @ [n]) = normalizeSegments b xs @ [n]"
  by (simp add: normalizeSegments_def normalizeStep_plain)

lemma normalizeSegments_snoc_empty: "normalizeSegments b (xs @ [[]]) = normalizeSegments b xs"
  by (simp add: normalizeSegments_def)

lemma isAbsolute_Nil [simp]: "\<not> isAbsolute []"
  by (simp add: isAbsolute_def)

lemma plainName_not_absolute: "plainName n \<Longrightarrow> \<not> isAbsolute n"
  by (cases n) (auto simp: plainName_def isAbsolute_def)

lemma isAbsolute_append: "d \<noteq> [] \<Longrightarrow> isAbsolute (d @ x) = isAbsolute d"
  by (cases d) (auto simp: isAbsolute_def)

lemma resolveSegments_normalize: "resolveSegments wd (path_normalize p) = resolveSegments wd p"
proof (cases "isAbsolute p")
  case True
  then show ?thesis
    using foldl_normalizeStep_normalize [of p False "[]"]
    by (simp add: resolveSegments_def isAbsolute_normalize normalizeSegments_def)
next
  case False
  then show ?thesis
    using foldl_normalizeStep_normalize [of p False "foldl (normalizeStep False) [] (splitPath wd)"]
    by (simp add: resolveSegments_def isAbsolute_normalize normalizeSegments_def splitPath_append)
qed

lemma path_join_pair:
  "n \<noteq> [] \<Longrightarrow> path_join [d, n] = path_normalize (if d = [] then n else d @ CHR ''/'' # n)"
  by (simp add: path_join_def)

lemma resolveSegments_child:
  assumes "plainName n"
  shows "resolveSegments wd (if d = [] then n else d @ CHR ''/'' # n) = resolveSegments wd d @ [n]"
proof (cases "d = []")
  case True
  have "CHR ''/'' \<notin> set n" using assms by (simp add: plainName_def)
  then show ?thesis
    using True assms plainName_not_absolute [OF assms]
    by (simp add: resolveSegments_def splitPath_append splitPath_plain normalizeSegments_snoc_plain
        normalizeSegments_snoc_empty)
next
  case False
  have n: "splitPath n = [n]" using assms by (simp add: plainName_def splitPath_plain)
  show ?thesis
  proof (cases "isAbsolute d")
    case True
    with False show ?thesis
      using normalizeSegments_snoc_plain [OF assms, of False "splitPath d"]
      by (simp add: resolveSegments_def isAbsolute_append splitPath_append n)
  next
    case nabs: False
    with False show ?thesis
      using normalizeSegments_snoc_plain [OF assms, of False "splitPath wd @ splitPath d"]
      by (simp add: resolveSegments_def isAbsolute_append splitPath_append n)
  qed
qed

lemma resolveSegments_join:
  assumes "plainName n"
  shows "resolveSegments wd (path_join [d, n]) = resolveSegments wd d @ [n]"
proof -
  have "n \<noteq> []" using assms by (simp add: plainName_def)
  then show ?thesis
    using resolveSegments_child [OF assms, of wd d]
    by (simp add: path_join_pair resolveSegments_normalize)
qed

lemma stripCommon_prefix: "stripCommon xs (xs @ ys) = ([], ys)"
proof (induction xs)
  case Nil
  show ?case by (cases ys) simp_all
next
  case (Cons x xs)
  then show ?case by simp
qed

lemma path_relative_below:
  "resolveSegments wd to = resolveSegments wd from @ rel \<Longrightarrow>
     path_relative wd from to = joinSegments rel"
  by (simp add: path_relative_def stripCommon_prefix)


lemma path_normalize_not_Nil: "path_normalize p \<noteq> []"
  by (simp add: path_normalize_def Let_def)

lemma path_normalize_cong:
  "p \<noteq> [] \<Longrightarrow> q \<noteq> [] \<Longrightarrow> isAbsolute p = isAbsolute q \<Longrightarrow> last p = last q \<Longrightarrow>
     normalizeString (\<not> isAbsolute p) p = normalizeString (\<not> isAbsolute p) q \<Longrightarrow>
     path_normalize p = path_normalize q"
  by (simp add: path_normalize_def Let_def)

lemma normalizeString_append_normalized:
  "normalizeString (\<not> isAbsolute p) (path_normalize p @ CHR ''/'' # r) =
   normalizeString (\<not> isAbsolute p) (p @ CHR ''/'' # r)"
  using foldl_normalizeStep_normalize [of p "\<not> isAbsolute p" "[]"]
  by (simp add: normalizeString_def normalizeSegments_def splitPath_append)

lemma path_normalize_append_normalized:
  assumes "p \<noteq> []" "r \<noteq> []"
  shows "path_normalize (path_normalize p @ CHR ''/'' # r) = path_normalize (p @ CHR ''/'' # r)"
proof (rule path_normalize_cong)
  show "path_normalize p @ CHR ''/'' # r \<noteq> []" by simp
  show "p @ CHR ''/'' # r \<noteq> []" by simp
  show a: "isAbsolute (path_normalize p @ CHR ''/'' # r) = isAbsolute (p @ CHR ''/'' # r)"
    using assms by (simp add: isAbsolute_append path_normalize_not_Nil isAbsolute_normalize)
  show "last (path_normalize p @ CHR ''/'' # r) = last (p @ CHR ''/'' # r)"
    using assms by simp
  have "isAbsolute (path_normalize p @ CHR ''/'' # r) = isAbsolute p"
    using assms by (simp add: isAbsolute_append path_normalize_not_Nil isAbsolute_normalize)
  then show "normalizeString (\<not> isAbsolute (path_normalize p @ CHR ''/'' # r))
               (path_normalize p @ CHR ''/'' # r) =
             normalizeString (\<not> isAbsolute (path_normalize p @ CHR ''/'' # r)) (p @ CHR ''/'' # r)"
    by (simp add: normalizeString_append_normalized)
qed

lemma joinSegments_flatten:
  "names \<noteq> [] \<Longrightarrow> joinSegments (xs @ [joinSegments names]) = joinSegments (xs @ names)"
  by (induction xs) (simp_all add: joinSegments_Cons)

lemma joinSegments_plain_not_absolute:
  "names \<noteq> [] \<Longrightarrow> list_all plainName names \<Longrightarrow>
     joinSegments names \<noteq> [] \<and> \<not> isAbsolute (joinSegments names)"
proof (cases names)
  case Nil
  assume "names \<noteq> []"
  with Nil show ?thesis by simp
next
  case (Cons n ns)
  assume "list_all plainName names"
  with Cons have "n \<noteq> []" "hd n \<noteq> CHR ''/''"
    by (auto simp: plainName_def) (cases n, auto)
  then show ?thesis using Cons by (cases ns; cases n) (auto simp: isAbsolute_def)
qed

lemma path_join_nested:
  assumes "r \<noteq> []" "\<not> isAbsolute r"
  shows "path_join [path_join [a, b], r] = path_join [a, b, r]"
proof (cases "a = [] \<and> b = []")
  case True
  have "path_normalize (CHR ''.'' # CHR ''/'' # r) = path_normalize r"
  proof (rule path_normalize_cong)
    show "normalizeString (\<not> isAbsolute (CHR ''.'' # CHR ''/'' # r)) (CHR ''.'' # CHR ''/'' # r) =
          normalizeString (\<not> isAbsolute (CHR ''.'' # CHR ''/'' # r)) r"
    proof -
      have "splitPath (CHR ''.'' # CHR ''/'' # r) = ''.'' # splitPath r" by simp
      then show ?thesis
        by (simp add: normalizeString_def normalizeSegments_def del: splitPath.simps)
    qed
  qed (use assms in \<open>simp_all add: isAbsolute_def\<close>)
  with True assms show ?thesis by (simp add: path_join_def)
next
  case False
  let ?J = "joinSegments (filter (\<lambda>a. a \<noteq> []) [a, b])"
  from False have J: "?J \<noteq> []" by auto
  from False have parts: "filter (\<lambda>a. a \<noteq> []) [a, b] \<noteq> []" by auto
  have 1: "path_join [a, b] = path_normalize ?J" using parts by (simp add: path_join_def)
  have 2: "path_join [path_normalize ?J, r] = path_normalize (path_normalize ?J @ CHR ''/'' # r)"
    using assms by (simp add: path_join_def path_normalize_not_Nil)
  have "filter (\<lambda>a. a \<noteq> []) [a, b, r] = filter (\<lambda>a. a \<noteq> []) [a, b] @ [r]"
    using assms by simp
  then have 3: "path_join [a, b, r] = path_normalize (?J @ CHR ''/'' # r)"
    using parts joinSegments_snoc [OF parts, of r] by (simp add: path_join_def)
  show ?thesis
    unfolding 1 2 3 using J assms(1) by (rule path_normalize_append_normalized)
qed

lemma path_join_shape:
  assumes "plainName n"
  shows "path_join [d, n] =
           (if isAbsolute d then ''/'' else []) @
           joinSegments (normalizeSegments (\<not> isAbsolute d) (splitPath d) @ [n])"
proof -
  have n0: "n \<noteq> []" "CHR ''/'' \<notin> set n"
    using assms by (auto simp: plainName_def)
  have n: "n \<noteq> []" "CHR ''/'' \<notin> set n" "last n \<noteq> CHR ''/''"
    using n0 by (simp, simp, metis last_in_set)
  let ?J = "if d = [] then n else d @ CHR ''/'' # n"
  let ?M = "normalizeSegments (\<not> isAbsolute d) (splitPath d)"
  have abs: "isAbsolute ?J = isAbsolute d"
    using plainName_not_absolute [OF assms] by (simp add: isAbsolute_append)
  have sp: "normalizeSegments (\<not> isAbsolute d) (splitPath ?J) = ?M @ [n]"
    using normalizeSegments_snoc_plain [OF assms, of "\<not> isAbsolute d" "splitPath d"]
      normalizeSegments_snoc_plain [OF assms, of True "[]"] n
    by (auto simp: splitPath_append splitPath_plain normalizeSegments_def)
  have pr: "\<forall>x \<in> set (?M @ [n]). x \<noteq> []"
    using normalizeSegments_proper [of "\<not> isAbsolute d" d] n
    by (auto simp: list_all_iff properSegment_def)
  have ne: "joinSegments (?M @ [n]) \<noteq> []"
    using joinSegments_eq_Nil [OF pr] by simp
  have l: "last ?J \<noteq> CHR ''/''" using n by simp
  have J: "?J \<noteq> []" using n by simp
  have "path_normalize ?J = (if isAbsolute d then ''/'' else []) @ joinSegments (?M @ [n])"
    using ne l J abs sp
    by (simp add: path_normalize_def[of ?J] Let_def normalizeString_def del: joinSegments.simps)
  then show ?thesis using n by (simp add: path_join_pair)
qed

lemma path_basename_join:
  assumes "plainName n"
  shows "path_basename (path_join [d, n]) = n"
proof -
  let ?M = "normalizeSegments (\<not> isAbsolute d) (splitPath d)"
  have n: "n \<noteq> []" "CHR ''/'' \<notin> set n" using assms by (auto simp: plainName_def)
  have pr: "\<forall>x \<in> set (?M @ [n]). CHR ''/'' \<notin> set x" "\<forall>x \<in> set (?M @ [n]). x \<noteq> []"
    using normalizeSegments_proper [of "\<not> isAbsolute d" d] n
    by (auto simp: list_all_iff properSegment_def)
  have sp: "splitPath (joinSegments (?M @ [n])) = ?M @ [n]"
    by (rule splitPath_joinSegments) (use pr in auto)
  have f: "filter (\<lambda>s. s \<noteq> []) (?M @ [n]) = ?M @ [n]"
    using pr(2) by (simp add: filter_id_conv)
  have "filter (\<lambda>s. s \<noteq> []) (splitPath (path_join [d, n])) = ?M @ [n]"
    unfolding path_join_shape [OF assms] using sp f by (cases "isAbsolute d") simp_all
  then show ?thesis by (simp add: path_basename_def)
qed

subsection \<open>Properties of the directory name of the model\<close>

lemma replaceInvalid_length: "length (replaceInvalid s) = length s"
  by (induction s) auto

lemma replaceInvalid_nth:
  "i < length s \<Longrightarrow>
     replaceInvalid s ! i = (if keptInDirName (s ! i) then s ! i else CHR ''_'')"
proof (induction s arbitrary: i)
  case Nil
  then show ?case by simp
next
  case (Cons c cs)
  then show ?case by (cases i) auto
qed

lemma underscore_kept: "keptInDirName (CHR ''_'')"
  by (simp add: keptInDirName_def isWordChar_def)

lemma replaceInvalid_fixed: "replaceInvalid s = s \<longleftrightarrow> (\<forall>c \<in> set s. keptInDirName c)"
proof (induction s)
  case Nil
  then show ?case by simp
next
  case (Cons c cs)
  then show ?case using underscore_kept by auto
qed

subsection \<open>Facts about the world\<close>

lemma emit_fields [simp]:
  "root (emit e w) = root w" "cwd (emit e w) = cwd w" "now (emit e w) = now w"
  "requests (emit e w) = requests w" "trace (emit e w) = trace w @ [e]"
  by (simp_all add: emit_def)

lemma console_fields [simp]:
  "root (console m w) = root w" "cwd (console m w) = cwd w" "now (console m w) = now w"
  "requests (console m w) = requests w" "trace (console m w) = trace w @ [Console m]"
  by (simp_all add: console_def)

lemma nodeAt_emit [simp]: "nodeAt (emit e w) p = nodeAt w p"
  by (simp add: nodeAt_def split: option.splits)

lemma nodeAt_console [simp]: "nodeAt (console m w) p = nodeAt w p"
  by (simp add: nodeAt_def split: option.splits)

lemma fs_stat_world [simp]: "snd (fs_stat p w) = emit (Stat p) w"
  by (simp add: fs_stat_def)

lemma fs_stat_eq: "fs_stat p w = (statOf (nodeAt w p), emit (Stat p) w)"
  by (simp add: fs_stat_def)

lemma isAlreadyTranslated_eq:
  "isAlreadyTranslated cfg p w =
     (let outputPath = path_join [OUTPUT_DIR cfg, path_basename p]
      in (currentAt w outputPath p,
          (case statOf (nodeAt w outputPath) of
             Inl e \<Rightarrow> emit (Stat outputPath) w
           | Inr s \<Rightarrow> emit (Stat p) (emit (Stat outputPath) w))))"
  by (simp add: isAlreadyTranslated_def fs_stat_eq currentAt_def Let_def split: sum.splits)

lemma isAlreadyTranslated_trace:
  "\<exists>rest. trace (snd (isAlreadyTranslated cfg p w)) =
      trace w @ Stat (path_join [OUTPUT_DIR cfg, path_basename p]) # rest \<and> set rest \<subseteq> {Stat p}"
  by (simp add: isAlreadyTranslated_eq Let_def split: sum.splits)

text \<open>
  Claim C9. The output location that \<open>isAlreadyTranslated\<close> examines is \<open>OUTPUT_DIR\<close>
  joined with the base name of the source path: its first call is \<open>stat\<close> of that path,
  and the only other call is \<open>stat\<close> of the source itself. For a document named \<open>n\<close> in
  any directory \<open>d\<close> the examined location is \<open>OUTPUT_DIR/n\<close>, whatever \<open>d\<close> is, and the
  answer is the currency of that location against the source; so documents of the same
  name in different directories are checked against one output location.
\<close>

theorem staleness_check_keyed_by_basename:
  "(\<exists>rest. trace (snd (isAlreadyTranslated cfg p w)) =
      trace w @ Stat (path_join [OUTPUT_DIR cfg, path_basename p]) # rest \<and> set rest \<subseteq> {Stat p}) \<and>
   (plainName n \<longrightarrow>
      (\<exists>rest. trace (snd (isAlreadyTranslated cfg (path_join [d, n]) w)) =
         trace w @ Stat (path_join [OUTPUT_DIR cfg, n]) # rest \<and>
         set rest \<subseteq> {Stat (path_join [d, n])}) \<and>
      fst (isAlreadyTranslated cfg (path_join [d, n]) w) =
        currentAt w (path_join [OUTPUT_DIR cfg, n]) (path_join [d, n]))"
proof (intro conjI impI)
  show "\<exists>rest. trace (snd (isAlreadyTranslated cfg p w)) =
      trace w @ Stat (path_join [OUTPUT_DIR cfg, path_basename p]) # rest \<and> set rest \<subseteq> {Stat p}"
    by (rule isAlreadyTranslated_trace)
next
  assume "plainName n"
  then have b: "path_basename (path_join [d, n]) = n" by (rule path_basename_join)
  show "\<exists>rest. trace (snd (isAlreadyTranslated cfg (path_join [d, n]) w)) =
         trace w @ Stat (path_join [OUTPUT_DIR cfg, n]) # rest \<and>
         set rest \<subseteq> {Stat (path_join [d, n])}"
    using isAlreadyTranslated_trace [of cfg "path_join [d, n]" w] b by simp
  show "fst (isAlreadyTranslated cfg (path_join [d, n]) w) =
        currentAt w (path_join [OUTPUT_DIR cfg, n]) (path_join [d, n])"
    by (simp add: isAlreadyTranslated_eq Let_def b)
qed


theorem staleness_check_keyed_by_basename_witness:
  "plainName ''doc.md'' \<and>
   trace (snd (isAlreadyTranslated docsCfg ''src/a/doc.md'' nestedWorld)) = [Stat ''out/m1/doc.md''] \<and>
   fst (isAlreadyTranslated docsCfg ''src/a/doc.md'' nestedWorld) = False"
proof -
  have n: "plainName ''doc.md''" by (simp add: plainName_def)
  have j: "path_join [''src/a'', ''doc.md''] = ''src/a/doc.md''" by code_simp
  have o: "path_join [OUTPUT_DIR docsCfg, ''doc.md''] = ''out/m1/doc.md''" by code_simp
  have c: "currentAt nestedWorld ''out/m1/doc.md'' ''src/a/doc.md'' = False" by code_simp
  have t: "trace nestedWorld = []" by (simp add: nestedWorld_def)
  from staleness_check_keyed_by_basename [of docsCfg "''src/a/doc.md''" nestedWorld "''doc.md''" "''src/a''"] n
  obtain rest where
    r: "trace (snd (isAlreadyTranslated docsCfg ''src/a/doc.md'' nestedWorld)) = Stat ''out/m1/doc.md'' # rest"
    and f: "fst (isAlreadyTranslated docsCfg ''src/a/doc.md'' nestedWorld) = False"
    unfolding j o c t by auto
  have "trace (snd (isAlreadyTranslated docsCfg ''src/a/doc.md'' nestedWorld)) = [Stat ''out/m1/doc.md'']"
    by code_simp
  with n f show ?thesis by simp
qed

subsection \<open>Where a translation is written\<close>

lemma joinSegments_Cons_char: "joinSegments ((c # s) # ss) = c # joinSegments (s # ss)"
  by (cases ss) auto

lemma joinSegments_splitPath: "joinSegments (splitPath s) = s"
proof (induction s)
  case Nil
  then show ?case by simp
next
  case (Cons c cs)
  obtain x xs where sp: "splitPath cs = x # xs"
    using splitPath_not_Nil [of cs] by (cases "splitPath cs") auto
  show ?case
  proof (cases "c = CHR ''/''")
    case True
    then show ?thesis using Cons sp by simp
  next
    case False
    then have "splitPath (c # cs) = (c # x) # xs" using sp by simp
    then show ?thesis using Cons sp by (simp only: joinSegments_Cons_char)
  qed
qed

lemma resolveSegments_pathBelow:
  "list_all plainName names \<Longrightarrow>
     resolveSegments wd (pathBelow d names) = resolveSegments wd d @ names"
proof (induction names rule: rev_induct)
  case Nil
  then show ?case by (simp add: pathBelow_def)
next
  case (snoc n ns)
  then have "plainName n" "list_all plainName ns" by simp_all
  then show ?case using snoc.IH by (simp add: pathBelow_def resolveSegments_join)
qed

lemma plainName_nonempty: "list_all plainName names \<Longrightarrow> filter (\<lambda>a. a \<noteq> []) names = names"
  by (induction names) (auto simp: plainName_def)

lemma path_join_relative_names:
  assumes "list_all plainName names" "names \<noteq> []"
  shows "path_join [path_join [a, b], joinSegments names] = path_join ([a, b] @ names)"
proof -
  have r: "joinSegments names \<noteq> []" "\<not> isAbsolute (joinSegments names)"
    using joinSegments_plain_not_absolute [OF assms(2) assms(1)] by simp_all
  define xs where "xs = filter (\<lambda>a. a \<noteq> []) [a, b]"
  have f1: "filter (\<lambda>a. a \<noteq> []) [a, b, joinSegments names] = xs @ [joinSegments names]"
    using r(1) by (simp add: xs_def)
  have f2: "filter (\<lambda>a. a \<noteq> []) ([a, b] @ names) = xs @ names"
    using plainName_nonempty [OF assms(1)] by (simp add: xs_def)
  have e: "joinSegments (xs @ [joinSegments names]) = joinSegments (xs @ names)"
    by (rule joinSegments_flatten [OF assms(2)])
  have "path_join [a, b, joinSegments names] = path_join ([a, b] @ names)"
    unfolding path_join_def Let_def f1 f2 e using assms(2) by simp
  then show ?thesis using path_join_nested [OF r] by simp
qed

lemma outputPathOf_below:
  assumes "list_all plainName names" "names \<noteq> []"
  shows "outputPathOf cfg wd (pathBelow (SOURCE_DIR cfg) names) =
         path_join ([BASE_OUTPUT_DIR cfg, MODEL_DIR_NAME cfg] @ names)"
proof -
  have "path_relative wd (SOURCE_DIR cfg) (pathBelow (SOURCE_DIR cfg) names) = joinSegments names"
    by (rule path_relative_below) (rule resolveSegments_pathBelow [OF assms(1)])
  then show ?thesis
    using path_join_relative_names [OF assms]
    by (simp add: outputPathOf_def OUTPUT_DIR_def)
qed

lemma path_normalize_plainPath:
  assumes "plainPath p"
  shows "path_normalize p = p"
proof -
  define q where "q = (if isAbsolute p then tl p else p)"
  have segs: "list_all plainName (splitPath q)" using assms by (simp add: plainPath_def q_def)
  have q: "q \<noteq> []"
  proof
    assume "q = []"
    with segs show False by (simp add: plainName_def)
  qed
  have lq: "last q \<noteq> CHR ''/''"
  proof
    assume l: "last q = CHR ''/''"
    have "splitPath (butlast q @ ''/'') = splitPath (butlast q) @ [[]]"
      by (rule splitPath_slash_last)
    moreover have "butlast q @ ''/'' = q" using append_butlast_last_id [OF q] l by simp
    ultimately have "splitPath q = splitPath (butlast q) @ [[]]" by simp
    with segs show False by (simp add: plainName_def)
  qed
  have sp: "foldl (normalizeStep b) [] (splitPath q) = rev (splitPath q)" for b
    using segs by (simp add: foldl_normalizeStep_plain)
  show ?thesis
  proof (cases "isAbsolute p")
    case True
    then obtain t where t: "p = CHR ''/'' # t" by (cases p) (auto simp: isAbsolute_def)
    with True have qt: "q = t" by (simp add: q_def)
    have "splitPath p = [] # splitPath t" using t by simp
    then have "normalizeSegments False (splitPath p) = splitPath t"
      using sp [of False] qt by (simp add: normalizeSegments_def)
    then have n: "normalizeString False p = t"
      by (simp add: normalizeString_def joinSegments_splitPath)
    have "last p = last t" using t q qt by simp
    then have "last p \<noteq> CHR ''/''" using lq qt by simp
    then have "path_normalize p = ''/'' @ t"
      using True n q qt t by (simp add: path_normalize_def Let_def)
    then show ?thesis using t by simp
  next
    case False
    then have qp: "q = p" by (simp add: q_def)
    have "normalizeSegments True (splitPath p) = splitPath p"
      using sp [of True] qp by (simp add: normalizeSegments_def)
    then have n: "normalizeString True p = p"
      by (simp add: normalizeString_def joinSegments_splitPath)
    show ?thesis using False n q qp lq by (auto simp: path_normalize_def Let_def)
  qed
qed

lemma plainPath_extend:
  assumes "plainPath p" "plainName n"
  shows "plainPath (p @ CHR ''/'' # n)"
proof -
  have p: "p \<noteq> []" using assms(1) by (auto simp: plainPath_def plainName_def)
  have n: "splitPath n = [n]" using assms(2) by (simp add: plainName_def splitPath_plain)
  have a: "isAbsolute (p @ CHR ''/'' # n) = isAbsolute p" using p by (simp add: isAbsolute_append)
  show ?thesis
  proof (cases "isAbsolute p")
    case True
    then obtain t where t: "p = CHR ''/'' # t" by (cases p) (auto simp: isAbsolute_def)
    have "splitPath (t @ CHR ''/'' # n) = splitPath t @ [n]" by (simp only: splitPath_append n)
    then show ?thesis using assms True t a by (simp add: plainPath_def)
  next
    case False
    have "splitPath (p @ CHR ''/'' # n) = splitPath p @ [n]" by (simp only: splitPath_append n)
    then show ?thesis using assms False a by (simp add: plainPath_def)
  qed
qed

lemma plainPath_extend_names:
  "plainPath p \<Longrightarrow> list_all plainName names \<Longrightarrow> names \<noteq> [] \<Longrightarrow>
     plainPath (p @ CHR ''/'' # joinSegments names)"
proof (induction names arbitrary: p)
  case Nil
  then show ?case by simp
next
  case (Cons n ns)
  show ?case
  proof (cases "ns = []")
    case True
    with Cons.prems show ?thesis by (simp add: plainPath_extend)
  next
    case False
    have "plainPath ((p @ CHR ''/'' # n) @ CHR ''/'' # joinSegments ns)"
      using Cons.prems False by (intro Cons.IH plainPath_extend) simp_all
    then show ?thesis using False by (simp add: joinSegments_Cons)
  qed
qed

lemma path_join_plain:
  assumes "plainPath base" "plainName m" "list_all plainName names"
  shows "path_join ([base, m] @ names) = base @ ''/'' @ joinSegments (m # names)"
proof -
  have b: "base \<noteq> []" using assms(1) by (auto simp: plainPath_def plainName_def)
  have m: "m \<noteq> []" using assms(2) by (simp add: plainName_def)
  have f: "filter (\<lambda>a. a \<noteq> []) ([base, m] @ names) = base # m # names"
    using plainName_nonempty [OF assms(3)] b m by simp
  have "plainPath (base @ CHR ''/'' # joinSegments (m # names))"
    using assms by (intro plainPath_extend_names) simp_all
  then have "path_normalize (base @ CHR ''/'' # joinSegments (m # names)) =
             base @ CHR ''/'' # joinSegments (m # names)"
    by (rule path_normalize_plainPath)
  moreover have "joinSegments (base # m # names) = base @ CHR ''/'' # joinSegments (m # names)"
    by (rule joinSegments_Cons) simp
  ultimately show ?thesis
    unfolding path_join_def f by (simp add: Let_def del: joinSegments.simps)
qed

lemma fs_mkdir_fields [simp]:
  "cwd (snd (fs_mkdir p w)) = cwd w" "now (snd (fs_mkdir p w)) = now w"
  "requests (snd (fs_mkdir p w)) = requests w"
  "trace (snd (fs_mkdir p w)) = trace w @ [Mkdir p]"
  by (simp_all add: fs_mkdir_def split: sum.splits)

lemma fs_writeFile_fields [simp]:
  "cwd (snd (fs_writeFile p c w)) = cwd w" "now (snd (fs_writeFile p c w)) = now w"
  "requests (snd (fs_writeFile p c w)) = requests w"
  "trace (snd (fs_writeFile p c w)) = trace w @ [WriteFile p c]"
  by (simp_all add: fs_writeFile_def split: sum.splits option.splits)

lemma saveTranslatedFile_trace:
  "\<exists>evs. trace (saveTranslatedFile cfg f content w) = trace w @ evs \<and>
     (\<forall>p c. WriteFile p c \<in> set evs \<longrightarrow> p = outputPathOf cfg (cwd w) f \<and> c = content) \<and>
     (\<forall>t. GenerateContent t \<notin> set evs) \<and> (\<forall>ms. Sleep ms \<notin> set evs) \<and>
     (\<forall>p. Stat p \<notin> set evs)"
proof -
  obtain r1 w1 where 1: "fs_mkdir (OUTPUT_DIR cfg) w = (r1, w1)" by (cases "fs_mkdir (OUTPUT_DIR cfg) w")
  obtain r2 w2 where 2: "fs_mkdir (path_dirname (outputPathOf cfg (cwd w) f)) w1 = (r2, w2)"
    by (cases "fs_mkdir (path_dirname (outputPathOf cfg (cwd w) f)) w1")
  obtain r3 w3 where 3: "fs_writeFile (outputPathOf cfg (cwd w) f) content w2 = (r3, w3)"
    by (cases "fs_writeFile (outputPathOf cfg (cwd w) f) content w2")
  have c1: "cwd w1 = cwd w" and t1: "trace w1 = trace w @ [Mkdir (OUTPUT_DIR cfg)]"
    using fs_mkdir_fields [of "OUTPUT_DIR cfg" w] 1 by simp_all
  have t2: "trace w2 = trace w1 @ [Mkdir (path_dirname (outputPathOf cfg (cwd w) f))]"
    using fs_mkdir_fields [of "path_dirname (outputPathOf cfg (cwd w) f)" w1] 2 by simp
  have t3: "trace w3 = trace w2 @ [WriteFile (outputPathOf cfg (cwd w) f) content]"
    using fs_writeFile_fields [of "outputPathOf cfg (cwd w) f" content w2] 3 by simp
  show ?thesis
    using 1 2 3 c1 t1 t2 t3
    by (cases r1; cases r2; cases r3) (simp_all add: saveTranslatedFile_def Let_def)
qed

text \<open>
  Claim C3, amended. For a document that lies \<open>names\<close> below the source root (as
  \<open>findMarkdownFiles\<close> names it), \<open>saveTranslatedFile\<close> computes the output path
  \<open>path.join(BASE_OUTPUT_DIR, MODEL_DIR_NAME, ...names)\<close>, and every file it writes is
  written there, with the translated content. The directory of the model is the sanitised
  model name \<open>MODEL_DIR_NAME\<close>, not the model name itself. When the output root is a
  normalised path of plain names and the sanitised model name is a plain name, that path
  is the string \<open>BASE_OUTPUT_DIR/MODEL_DIR_NAME/a/b/doc.md\<close>.
\<close>

theorem output_path_mirrors_source_tree:
  assumes "list_all plainName names" "names \<noteq> []"
  shows "outputPathOf cfg (cwd w) (pathBelow (SOURCE_DIR cfg) names) =
           path_join ([BASE_OUTPUT_DIR cfg, MODEL_DIR_NAME cfg] @ names) \<and>
         (\<exists>evs. trace (saveTranslatedFile cfg (pathBelow (SOURCE_DIR cfg) names) content w) =
                   trace w @ evs \<and>
            (\<forall>p c. WriteFile p c \<in> set evs \<longrightarrow>
               p = path_join ([BASE_OUTPUT_DIR cfg, MODEL_DIR_NAME cfg] @ names) \<and> c = content)) \<and>
         (plainPath (BASE_OUTPUT_DIR cfg) \<and> plainName (MODEL_DIR_NAME cfg) \<longrightarrow>
            path_join ([BASE_OUTPUT_DIR cfg, MODEL_DIR_NAME cfg] @ names) =
              BASE_OUTPUT_DIR cfg @ ''/'' @ MODEL_DIR_NAME cfg @ ''/'' @ joinSegments names)"
proof (intro conjI impI)
  show o: "outputPathOf cfg (cwd w) (pathBelow (SOURCE_DIR cfg) names) =
           path_join ([BASE_OUTPUT_DIR cfg, MODEL_DIR_NAME cfg] @ names)"
    by (rule outputPathOf_below [OF assms])
  show "\<exists>evs. trace (saveTranslatedFile cfg (pathBelow (SOURCE_DIR cfg) names) content w) =
                   trace w @ evs \<and>
            (\<forall>p c. WriteFile p c \<in> set evs \<longrightarrow>
               p = path_join ([BASE_OUTPUT_DIR cfg, MODEL_DIR_NAME cfg] @ names) \<and> c = content)"
    using saveTranslatedFile_trace [of cfg "pathBelow (SOURCE_DIR cfg) names" content w]
    unfolding o by blast
next
  assume "plainPath (BASE_OUTPUT_DIR cfg) \<and> plainName (MODEL_DIR_NAME cfg)"
  then show "path_join ([BASE_OUTPUT_DIR cfg, MODEL_DIR_NAME cfg] @ names) =
              BASE_OUTPUT_DIR cfg @ ''/'' @ MODEL_DIR_NAME cfg @ ''/'' @ joinSegments names"
    using path_join_plain [OF _ _ assms(1)] assms(2) by (simp add: joinSegments_Cons)
qed


theorem output_path_mirrors_source_tree_witness:
  "list_all plainName [''a'', ''b'', ''doc.md''] \<and>
   outputPathOf docsCfg ''/w'' ''src/a/b/doc.md'' = ''out/m1/a/b/doc.md'' \<and>
   trace (saveTranslatedFile docsCfg ''src/a/b/doc.md'' ''ja'' nestedWorld) =
     [Mkdir ''out/m1'', Mkdir ''out/m1/a/b'', WriteFile ''out/m1/a/b/doc.md'' ''ja'',
      Console (Saved ''out/m1/a/b/doc.md'')]"
proof -
  have n: "list_all plainName [''a'', ''b'', ''doc.md'']" "[''a'', ''b'', ''doc.md''] \<noteq> []"
    by (simp_all add: plainName_def)
  have p: "pathBelow (SOURCE_DIR docsCfg) [''a'', ''b'', ''doc.md''] = ''src/a/b/doc.md''"
    by code_simp
  have c: "cwd nestedWorld = ''/w''" by (simp add: nestedWorld_def)
  have j: "path_join ([BASE_OUTPUT_DIR docsCfg, MODEL_DIR_NAME docsCfg] @ [''a'', ''b'', ''doc.md'']) =
           ''out/m1/a/b/doc.md''"
    by code_simp
  have t: "trace (saveTranslatedFile docsCfg ''src/a/b/doc.md'' ''ja'' nestedWorld) =
     [Mkdir ''out/m1'', Mkdir ''out/m1/a/b'', WriteFile ''out/m1/a/b/doc.md'' ''ja'',
      Console (Saved ''out/m1/a/b/doc.md'')]"
    by code_simp
  from output_path_mirrors_source_tree [OF n, of docsCfg nestedWorld "''ja''"]
  have "outputPathOf docsCfg ''/w'' ''src/a/b/doc.md'' = ''out/m1/a/b/doc.md''"
    unfolding p c j by simp
  with n t show ?thesis by simp
qed

theorem model_name_not_verbatim_counterexample:
  "outputPathOf spacedCfg ''/w'' ''src/a/b/doc.md'' = ''out/models_gemini_2.0/a/b/doc.md'' \<and>
   outputPathOf spacedCfg ''/w'' ''src/a/b/doc.md'' \<noteq>
     BASE_OUTPUT_DIR spacedCfg @ ''/'' @ MODEL_NAME spacedCfg @ ''/a/b/doc.md''"
  by code_simp

text \<open>
  Claim C2, evaluated on the code. The translation of \<open>src/a/doc.md\<close> lies at the output
  location \<open>out/m1/a/doc.md\<close> (where \<open>saveTranslatedFile\<close> writes it) and is newer than the
  source, and \<open>isAlreadyTranslated\<close> answers \<open>false\<close>: it examines \<open>out/m1/doc.md\<close>.
\<close>

theorem stale_check_misses_mirrored_output:
  "outputPathOf docsCfg (cwd nestedWorld) ''src/a/doc.md'' = ''out/m1/a/doc.md'' \<and>
   nodeAt nestedWorld ''out/m1/a/doc.md'' = Some (File ''ja'' 7) \<and>
   nodeAt nestedWorld ''src/a/doc.md'' = Some (File ''en'' 3) \<and>
   fst (isAlreadyTranslated docsCfg ''src/a/doc.md'' nestedWorld) = False \<and>
   trace (snd (isAlreadyTranslated docsCfg ''src/a/doc.md'' nestedWorld)) = [Stat ''out/m1/doc.md'']"
  by code_simp

subsection \<open>What each function of the script does to the world\<close>

lemma nodeAt_cong: "root w' = root w \<Longrightarrow> cwd w' = cwd w \<Longrightarrow> nodeAt w' p = nodeAt w p"
  by (simp add: nodeAt_def split: option.splits)

lemma currentAt_cong:
  "root w' = root w \<Longrightarrow> cwd w' = cwd w \<Longrightarrow> currentAt w' a b = currentAt w a b"
  using nodeAt_cong [of w' w a] nodeAt_cong [of w' w b]
  by (simp add: currentAt_def split: sum.splits)

lemma isAlreadyTranslated_fields [simp]:
  "root (snd (isAlreadyTranslated cfg p w)) = root w"
  "cwd (snd (isAlreadyTranslated cfg p w)) = cwd w"
  "now (snd (isAlreadyTranslated cfg p w)) = now w"
  "requests (snd (isAlreadyTranslated cfg p w)) = requests w"
  by (simp_all add: isAlreadyTranslated_eq Let_def split: sum.splits)

lemma isAlreadyTranslated_answer:
  "fst (isAlreadyTranslated cfg p w) = currentAt w (consultedPath cfg p) p"
  by (simp add: isAlreadyTranslated_eq Let_def consultedPath_def)

lemma isAlreadyTranslated_events:
  "\<exists>evs. trace (snd (isAlreadyTranslated cfg p w)) = trace w @ evs \<and> evs \<noteq> [] \<and>
     (\<forall>e \<in> set evs. \<exists>q. e = Stat q)"
  by (simp add: isAlreadyTranslated_eq Let_def split: sum.splits)

lemma readMarkdownFile_eq:
  "readMarkdownFile f w =
     (case nodeAt w f of
        Some (File c m) \<Rightarrow> (c, emit (ReadFile f) w)
      | _ \<Rightarrow> ([], console (FileReadError f) (emit (ReadFile f) w)))"
  by (simp add: readMarkdownFile_def fs_readFile_def split: option.splits node.splits)

lemma readMarkdownFile_fields [simp]:
  "root (snd (readMarkdownFile f w)) = root w"
  "cwd (snd (readMarkdownFile f w)) = cwd w"
  "now (snd (readMarkdownFile f w)) = now w"
  "requests (snd (readMarkdownFile f w)) = requests w"
  by (simp_all add: readMarkdownFile_eq split: option.splits node.splits)

lemma readMarkdownFile_content_cong:
  "root w' = root w \<Longrightarrow> cwd w' = cwd w \<Longrightarrow>
     fst (readMarkdownFile f w') = fst (readMarkdownFile f w)"
  using nodeAt_cong [of w' w f] by (simp add: readMarkdownFile_eq split: option.splits node.splits)

lemma readMarkdownFile_events:
  "\<exists>evs. trace (snd (readMarkdownFile f w)) = trace w @ ReadFile f # evs \<and>
     set evs \<subseteq> {Console (FileReadError f)}"
  by (simp add: readMarkdownFile_eq split: option.splits node.splits)

lemma translateToJapanese_fields [simp]:
  "root (snd (translateToJapanese ai text w)) = root w"
  "cwd (snd (translateToJapanese ai text w)) = cwd w"
  "now (snd (translateToJapanese ai text w)) = now w"
  "requests (snd (translateToJapanese ai text w)) = Suc (requests w)"
  by (simp_all add: translateToJapanese_def generateContent_def split: response.splits)

lemma translateToJapanese_truthy:
  "truthy (fst (translateToJapanese ai text w)) = usable (ai (requests w) text)"
  by (simp add: translateToJapanese_def generateContent_def usable_def split: response.splits)

lemma translateToJapanese_events:
  "\<exists>evs. trace (snd (translateToJapanese ai text w)) = trace w @ GenerateContent text # evs \<and>
     set evs \<subseteq> {Console TranslationError}"
  by (simp add: translateToJapanese_def generateContent_def split: response.splits)

lemma saveTranslatedFile_fields [simp]:
  "cwd (saveTranslatedFile cfg f content w) = cwd w"
  "now (saveTranslatedFile cfg f content w) = now w"
  "requests (saveTranslatedFile cfg f content w) = requests w"
proof -
  obtain r1 w1 where 1: "fs_mkdir (OUTPUT_DIR cfg) w = (r1, w1)" by (cases "fs_mkdir (OUTPUT_DIR cfg) w")
  obtain r2 w2 where 2: "fs_mkdir (path_dirname (outputPathOf cfg (cwd w1) f)) w1 = (r2, w2)"
    by (cases "fs_mkdir (path_dirname (outputPathOf cfg (cwd w1) f)) w1")
  obtain r3 w3 where 3: "fs_writeFile (outputPathOf cfg (cwd w1) f) content w2 = (r3, w3)"
    by (cases "fs_writeFile (outputPathOf cfg (cwd w1) f) content w2")
  have f1: "cwd w1 = cwd w" "now w1 = now w" "requests w1 = requests w"
    using fs_mkdir_fields [of "OUTPUT_DIR cfg" w] 1 by simp_all
  have f2: "cwd w2 = cwd w1" "now w2 = now w1" "requests w2 = requests w1"
    using fs_mkdir_fields [of "path_dirname (outputPathOf cfg (cwd w1) f)" w1] 2 by simp_all
  have f3: "cwd w3 = cwd w2" "now w3 = now w2" "requests w3 = requests w2"
    using fs_writeFile_fields [of "outputPathOf cfg (cwd w1) f" content w2] 3 by simp_all
  show "cwd (saveTranslatedFile cfg f content w) = cwd w"
    using 1 2 3 f1 f2 f3
    by (cases r1; cases r2; cases r3) (simp_all add: saveTranslatedFile_def Let_def)
  show "now (saveTranslatedFile cfg f content w) = now w"
    using 1 2 3 f1 f2 f3
    by (cases r1; cases r2; cases r3) (simp_all add: saveTranslatedFile_def Let_def)
  show "requests (saveTranslatedFile cfg f content w) = requests w"
    using 1 2 3 f1 f2 f3
    by (cases r1; cases r2; cases r3) (simp_all add: saveTranslatedFile_def Let_def)
qed

lemma sleep_fields [simp]:
  "root (sleep ms w) = root w" "cwd (sleep ms w) = cwd w" "now (sleep ms w) = now w + ms"
  "requests (sleep ms w) = requests w" "trace (sleep ms w) = trace w @ [Sleep ms]"
  by (simp_all add: sleep_def)


text \<open>One round of the loop, by cases: the file is skipped, its content is empty or cannot
  be read, its translation fails, or it is translated and handed to \<open>saveTranslatedFile\<close>.\<close>

lemma processFile_cases [consumes 1, case_names Skipped Unread Failed Translated]:
  assumes step: "processFile cfg ai (c, w) f = (c', w')"
  obtains
    (Skipped) checks where
      "\<not> FORCE_TRANSLATE cfg" "currentAt w (consultedPath cfg f) f"
      "c' = c\<lparr>skippedCount := skippedCount c + 1\<rparr>"
      "root w' = root w" "cwd w' = cwd w" "now w' = now w" "requests w' = requests w"
      "trace w' = trace w @ Console (Processing f) # checks @ [Console (SkippedAlreadyTranslated f)]"
      "checks \<noteq> []" "\<forall>e \<in> set checks. \<exists>q. e = Stat q"
  | (Unread) checks errs where
      "FORCE_TRANSLATE cfg \<or> \<not> currentAt w (consultedPath cfg f) f"
      "fst (readMarkdownFile f w) = []"
      "c' = c"
      "root w' = root w" "cwd w' = cwd w" "now w' = now w" "requests w' = requests w"
      "trace w' = trace w @ Console (Processing f) # checks @ ReadFile f # errs"
      "FORCE_TRANSLATE cfg \<longrightarrow> checks = []" "\<forall>e \<in> set checks. \<exists>q. e = Stat q"
      "set errs \<subseteq> {Console (FileReadError f)}"
  | (Failed) checks errs where
      "FORCE_TRANSLATE cfg \<or> \<not> currentAt w (consultedPath cfg f) f"
      "fst (readMarkdownFile f w) \<noteq> []"
      "\<not> usable (ai (requests w) (fst (readMarkdownFile f w)))"
      "c' = c"
      "root w' = root w" "cwd w' = cwd w" "now w' = now w + 1000" "requests w' = Suc (requests w)"
      "trace w' = trace w @ Console (Processing f) # checks @
         [ReadFile f, GenerateContent (fst (readMarkdownFile f w))] @ errs @ [Sleep 1000]"
      "FORCE_TRANSLATE cfg \<longrightarrow> checks = []" "\<forall>e \<in> set checks. \<exists>q. e = Stat q"
      "set errs \<subseteq> {Console TranslationError}"
  | (Translated) checks ja w3 where
      "FORCE_TRANSLATE cfg \<or> \<not> currentAt w (consultedPath cfg f) f"
      "fst (readMarkdownFile f w) \<noteq> []"
      "ai (requests w) (fst (readMarkdownFile f w)) = Text ja" "ja \<noteq> []"
      "c' = c\<lparr>translatedCount := translatedCount c + 1\<rparr>"
      "w' = sleep 1000 (saveTranslatedFile cfg f ja w3)"
      "root w3 = root w" "cwd w3 = cwd w" "now w3 = now w" "requests w3 = Suc (requests w)"
      "trace w3 = trace w @ Console (Processing f) # checks @
         [ReadFile f, GenerateContent (fst (readMarkdownFile f w))]"
      "FORCE_TRANSLATE cfg \<longrightarrow> checks = []" "\<forall>e \<in> set checks. \<exists>q. e = Stat q"
proof -
  define w0 where "w0 = console (Processing f) w"
  define sk where "sk = (if FORCE_TRANSLATE cfg then (False, w0) else isAlreadyTranslated cfg f w0)"
  obtain skip w1 where sk: "sk = (skip, w1)" by (cases sk)
  have w0: "root w0 = root w" "cwd w0 = cwd w" "now w0 = now w" "requests w0 = requests w"
    "trace w0 = trace w @ [Console (Processing f)]"
    by (simp_all add: w0_def)
  have skw: "skip = (if FORCE_TRANSLATE cfg then False else fst (isAlreadyTranslated cfg f w0))"
    "w1 = (if FORCE_TRANSLATE cfg then w0 else snd (isAlreadyTranslated cfg f w0))"
    using sk by (auto simp: sk_def split: if_splits)
  have skip: "skip = (\<not> FORCE_TRANSLATE cfg \<and> currentAt w (consultedPath cfg f) f)"
    using currentAt_cong [of w0 w "consultedPath cfg f" f] w0
    by (simp add: skw isAlreadyTranslated_answer)
  have w1: "root w1 = root w" "cwd w1 = cwd w" "now w1 = now w" "requests w1 = requests w"
    by (simp_all add: skw w0)
  obtain checks where checks: "trace w1 = trace w @ Console (Processing f) # checks"
    "FORCE_TRANSLATE cfg \<longrightarrow> checks = []" "\<not> FORCE_TRANSLATE cfg \<longrightarrow> checks \<noteq> []"
    "\<forall>e \<in> set checks. \<exists>q. e = Stat q"
  proof (cases "FORCE_TRANSLATE cfg")
    case True
    then have "trace w1 = trace w @ Console (Processing f) # []" using w0 by (simp add: skw)
    with True that [of "[]"] show ?thesis by simp
  next
    case False
    then have "w1 = snd (isAlreadyTranslated cfg f w0)" by (simp add: skw)
    with isAlreadyTranslated_events [of cfg f w0] w0 False that show ?thesis by auto
  qed
  have unfold: "processFile cfg ai (c, w) f =
     (if skip then
        (c\<lparr>skippedCount := skippedCount c + 1\<rparr>, console (SkippedAlreadyTranslated f) w1)
      else
        (let (content, w2) = readMarkdownFile f w1
         in if content = [] then (c, w2)
            else
              (let (translated, w3) = translateToJapanese ai content w2;
                   (counts', w4) =
                     (if truthy translated then
                        (c\<lparr>translatedCount := translatedCount c + 1\<rparr>,
                         saveTranslatedFile cfg f (stringOf translated) w3)
                      else (c, w3))
               in (counts', sleep 1000 w4))))"
    using sk unfolding processFile_def sk_def w0_def by (simp add: Let_def)
  show ?thesis
  proof (cases skip)
    case True
    then have r: "c' = c\<lparr>skippedCount := skippedCount c + 1\<rparr>"
      "w' = console (SkippedAlreadyTranslated f) w1"
      using step unfold by simp_all
    show ?thesis
      by (rule Skipped [of checks]) (use True skip r w1 checks in simp_all)
  next
    case notskip: False
    obtain content w2 where rd: "readMarkdownFile f w1 = (content, w2)"
      by (cases "readMarkdownFile f w1")
    have content: "content = fst (readMarkdownFile f w)"
      using rd readMarkdownFile_content_cong [of w1 w f] w1 by simp
    have w2: "root w2 = root w" "cwd w2 = cwd w" "now w2 = now w" "requests w2 = requests w"
      using rd readMarkdownFile_fields [of f w1] w1 by simp_all
    obtain errs where errs: "trace w2 = trace w1 @ ReadFile f # errs"
      "set errs \<subseteq> {Console (FileReadError f)}"
      using readMarkdownFile_events [of f w1] rd by auto
    have force: "FORCE_TRANSLATE cfg \<or> \<not> currentAt w (consultedPath cfg f) f"
      using notskip skip by auto
    show ?thesis
    proof (cases "content = []")
      case True
      then have r: "c' = c" "w' = w2" using step unfold notskip rd by simp_all
      show ?thesis
        by (rule Unread [of checks errs]) (use True force content r w2 checks errs in simp_all)
    next
      case nonempty: False
      have errs_nil: "errs = []"
        using nonempty errs(1) rd
        by (auto simp: readMarkdownFile_eq split: option.splits node.splits)
      obtain translated w3 where tj: "translateToJapanese ai content w2 = (translated, w3)"
        by (cases "translateToJapanese ai content w2")
      have w3: "root w3 = root w" "cwd w3 = cwd w" "now w3 = now w" "requests w3 = Suc (requests w)"
        using tj translateToJapanese_fields [of ai content w2] w2 by simp_all
      obtain terrs where terrs: "trace w3 = trace w2 @ GenerateContent content # terrs"
        "set terrs \<subseteq> {Console TranslationError}"
        using translateToJapanese_events [of ai content w2] tj by auto
      have tr: "truthy translated = usable (ai (requests w) content)"
        using translateToJapanese_truthy [of ai content w2] tj w2 by simp
      show ?thesis
      proof (cases "truthy translated")
        case False
        then have r: "c' = c" "w' = sleep 1000 w3"
          using step unfold notskip rd nonempty tj by simp_all
        show ?thesis
          by (rule Failed [of checks terrs])
            (use False tr force content nonempty r w3 checks errs errs_nil terrs in simp_all)
      next
        case True
        then obtain ja where ja: "ai (requests w) content = Text ja" "ja \<noteq> []"
          using tr by (auto simp: usable_def split: response.splits)
        then have "translated = Str ja" "terrs = []"
          using tj terrs(1) w2
          by (auto simp: translateToJapanese_def generateContent_def split: response.splits)
        then have r: "c' = c\<lparr>translatedCount := translatedCount c + 1\<rparr>"
          "w' = sleep 1000 (saveTranslatedFile cfg f ja w3)"
          using step unfold notskip rd nonempty tj ja(2) by simp_all
        show ?thesis
          by (rule Translated [of ja w3 checks])
            (use ja force content nonempty r w3 checks errs errs_nil terrs \<open>terrs = []\<close> in simp_all)
      qed
    qed
  qed
qed

subsection \<open>The events of one round and of a batch\<close>

lemma added_append: "trace w' = trace w @ evs \<Longrightarrow> added w w' = evs"
  by (simp add: added_def)

lemma only_stats:
  assumes "\<forall>e \<in> set xs. \<exists>q. e = Stat q"
  shows "filter isRequest xs = []" "filter isSleep xs = []" "filter isRead xs = []"
    "filter isWrite xs = []" "filter isStat xs = xs"
  using assms by (induction xs) auto

lemma only_console:
  assumes "set xs \<subseteq> {Console m}"
  shows "filter isRequest xs = []" "filter isSleep xs = []" "filter isRead xs = []"
    "filter isWrite xs = []" "filter isStat xs = []"
  using assms by (induction xs) auto

lemma saveTranslatedFile_events:
  "\<exists>evs. trace (saveTranslatedFile cfg f content w) = trace w @ Mkdir (OUTPUT_DIR cfg) # evs \<and>
     filter isRequest evs = [] \<and> filter isSleep evs = [] \<and> filter isRead evs = [] \<and>
     filter isStat evs = []"
proof -
  obtain r1 w1 where 1: "fs_mkdir (OUTPUT_DIR cfg) w = (r1, w1)" by (cases "fs_mkdir (OUTPUT_DIR cfg) w")
  obtain r2 w2 where 2: "fs_mkdir (path_dirname (outputPathOf cfg (cwd w) f)) w1 = (r2, w2)"
    by (cases "fs_mkdir (path_dirname (outputPathOf cfg (cwd w) f)) w1")
  obtain r3 w3 where 3: "fs_writeFile (outputPathOf cfg (cwd w) f) content w2 = (r3, w3)"
    by (cases "fs_writeFile (outputPathOf cfg (cwd w) f) content w2")
  have c1: "cwd w1 = cwd w" and t1: "trace w1 = trace w @ [Mkdir (OUTPUT_DIR cfg)]"
    using fs_mkdir_fields [of "OUTPUT_DIR cfg" w] 1 by simp_all
  have t2: "trace w2 = trace w1 @ [Mkdir (path_dirname (outputPathOf cfg (cwd w) f))]"
    using fs_mkdir_fields [of "path_dirname (outputPathOf cfg (cwd w) f)" w1] 2 by simp
  have t3: "trace w3 = trace w2 @ [WriteFile (outputPathOf cfg (cwd w) f) content]"
    using fs_writeFile_fields [of "outputPathOf cfg (cwd w) f" content w2] 3 by simp
  show ?thesis
    using 1 2 3 c1 t1 t2 t3
    by (cases r1; cases r2; cases r3) (simp_all add: saveTranslatedFile_def Let_def)
qed

lemma round_events:
  assumes step: "processFile cfg ai (c, w) f = (c', w')"
  shows "\<exists>evs. trace w' = trace w @ evs \<and>
    filter isRequest evs =
      (if requests w' = requests w then [] else [GenerateContent (fst (readMarkdownFile f w))]) \<and>
    filter isSleep evs = (if requests w' = requests w then [] else [Sleep 1000]) \<and>
    (requests w' \<noteq> requests w \<longrightarrow> last evs = Sleep 1000) \<and>
    now w' = now w + (if requests w' = requests w then 0 else 1000) \<and>
    (requests w' = requests w \<or> requests w' = Suc (requests w)) \<and>
    (FORCE_TRANSLATE cfg \<longrightarrow> filter isStat evs = []) \<and>
    filter isRead evs = (if skippedCount c' = skippedCount c then [ReadFile f] else []) \<and>
    translatedCount c' + skippedCount c' \<le> Suc (translatedCount c + skippedCount c) \<and>
    translatedCount c \<le> translatedCount c' \<and> skippedCount c \<le> skippedCount c' \<and>
    (FORCE_TRANSLATE cfg \<longrightarrow> skippedCount c' = skippedCount c) \<and>
    cwd w' = cwd w"
  using step
proof (cases rule: processFile_cases)
  case (Skipped checks)
  then show ?thesis using only_stats [of checks] by simp
next
  case (Unread checks errs)
  then show ?thesis using only_stats [of checks] only_console [of errs "FileReadError f"] by simp
next
  case (Failed checks errs)
  then show ?thesis using only_stats [of checks] only_console [of errs TranslationError] by simp
next
  case (Translated checks ja w3)
  obtain sevs where sevs:
    "trace (saveTranslatedFile cfg f ja w3) = trace w3 @ Mkdir (OUTPUT_DIR cfg) # sevs"
    "filter isRequest sevs = []" "filter isSleep sevs = []" "filter isRead sevs = []"
    "filter isStat sevs = []"
    using saveTranslatedFile_events [of cfg f ja w3] by blast
  from Translated sevs show ?thesis using only_stats [of checks] by simp
qed


lemma batch_events:
  "foldl (processFile cfg ai) (c, w) files = (c', w') \<Longrightarrow>
   \<exists>evs. trace w' = trace w @ evs \<and>
     filter isSleep evs = replicate (requests w' - requests w) (Sleep 1000) \<and>
     length (filter isRequest evs) = requests w' - requests w \<and>
     requests w \<le> requests w' \<and>
     now w' = now w + 1000 * (requests w' - requests w) \<and>
     (FORCE_TRANSLATE cfg \<longrightarrow>
        filter isStat evs = [] \<and> skippedCount c' = skippedCount c \<and>
        filter isRead evs = map ReadFile files) \<and>
     translatedCount c' + skippedCount c' \<le> length files + (translatedCount c + skippedCount c) \<and>
     translatedCount c \<le> translatedCount c' \<and> skippedCount c \<le> skippedCount c' \<and>
     cwd w' = cwd w"
proof (induction files arbitrary: c' w' rule: rev_induct)
  case Nil
  then show ?case by simp
next
  case (snoc x xs)
  obtain c1 w1 where mid: "foldl (processFile cfg ai) (c, w) xs = (c1, w1)"
    by (cases "foldl (processFile cfg ai) (c, w) xs")
  with snoc.prems have last: "processFile cfg ai (c1, w1) x = (c', w')" by simp
  from snoc.IH [OF mid] obtain evs1 where 1:
    "trace w1 = trace w @ evs1"
    "filter isSleep evs1 = replicate (requests w1 - requests w) (Sleep 1000)"
    "length (filter isRequest evs1) = requests w1 - requests w"
    "requests w \<le> requests w1"
    "now w1 = now w + 1000 * (requests w1 - requests w)"
    "FORCE_TRANSLATE cfg \<longrightarrow>
        filter isStat evs1 = [] \<and> skippedCount c1 = skippedCount c \<and>
        filter isRead evs1 = map ReadFile xs"
    "translatedCount c1 + skippedCount c1 \<le> length xs + (translatedCount c + skippedCount c)"
    "translatedCount c \<le> translatedCount c1" "skippedCount c \<le> skippedCount c1"
    "cwd w1 = cwd w"
    by blast
  from round_events [OF last] obtain evs2 where 2:
    "trace w' = trace w1 @ evs2"
    "filter isRequest evs2 =
      (if requests w' = requests w1 then [] else [GenerateContent (fst (readMarkdownFile x w1))])"
    "filter isSleep evs2 = (if requests w' = requests w1 then [] else [Sleep 1000])"
    "now w' = now w1 + (if requests w' = requests w1 then 0 else 1000)"
    "requests w' = requests w1 \<or> requests w' = Suc (requests w1)"
    "FORCE_TRANSLATE cfg \<longrightarrow> filter isStat evs2 = []"
    "filter isRead evs2 = (if skippedCount c' = skippedCount c1 then [ReadFile x] else [])"
    "translatedCount c' + skippedCount c' \<le> Suc (translatedCount c1 + skippedCount c1)"
    "translatedCount c1 \<le> translatedCount c'" "skippedCount c1 \<le> skippedCount c'"
    "FORCE_TRANSLATE cfg \<longrightarrow> skippedCount c' = skippedCount c1"
    "cwd w' = cwd w1"
    by blast
  have sl: "filter isSleep (evs1 @ evs2) = replicate (requests w' - requests w) (Sleep 1000)"
  proof (cases "requests w' = requests w1")
    case True
    then show ?thesis using 1(2) 2(3) by simp
  next
    case False
    with 2(5) have "requests w' - requests w = Suc (requests w1 - requests w)" using 1(4) by simp
    then show ?thesis using 1(2) 2(3) False by (simp add: replicate_append_same)
  qed
  have rq: "length (filter isRequest (evs1 @ evs2)) = requests w' - requests w"
    using 1(3,4) 2(2,5) by auto
  have nw: "now w' = now w + 1000 * (requests w' - requests w)"
    using 1(4,5) 2(4,5) by auto
  show ?case
    apply (rule exI [of _ "evs1 @ evs2"])
    using 1 2 sl rq nw by auto
qed

text \<open>
  Claim C5, amended. In one round of the loop the pacing delay follows the request to the
  translation service: when the round issued a request (the item ends Saved, or Failed
  at the translation or at the save), the round performs exactly one delay, of 1000 ms,
  as its last action before the next item; when the round issued no request (the item is
  Skipped, or its content is empty or cannot be read) it performs no delay and the clock
  stands still. Over a batch there are as many delays as requests.
\<close>

theorem pacing_follows_each_request:
  "(let w' = snd (processFile cfg ai (c, w) f); evs = added w w'
    in (filter isRequest evs \<noteq> [] \<longrightarrow>
          filter isSleep evs = [Sleep 1000] \<and> last evs = Sleep 1000 \<and> now w' = now w + 1000) \<and>
       (filter isRequest evs = [] \<longrightarrow> filter isSleep evs = [] \<and> now w' = now w)) \<and>
   (let w' = snd (processBatchWithDelay cfg ai files w); evs = added w w'
    in filter isSleep evs = replicate (length (filter isRequest evs)) (Sleep 1000) \<and>
       now w' = now w + 1000 * length (filter isRequest evs))"
proof -
  obtain c' w' where step: "processFile cfg ai (c, w) f = (c', w')"
    by (cases "processFile cfg ai (c, w) f")
  obtain r wb where batch: "processBatchWithDelay cfg ai files w = (r, wb)"
    by (cases "processBatchWithDelay cfg ai files w")
  from round_events [OF step] obtain evs where e:
    "trace w' = trace w @ evs"
    "filter isRequest evs =
      (if requests w' = requests w then [] else [GenerateContent (fst (readMarkdownFile f w))])"
    "filter isSleep evs = (if requests w' = requests w then [] else [Sleep 1000])"
    "requests w' \<noteq> requests w \<longrightarrow> last evs = Sleep 1000"
    "now w' = now w + (if requests w' = requests w then 0 else 1000)"
    by blast
  from batch have "foldl (processFile cfg ai) (\<lparr>translatedCount = 0, skippedCount = 0\<rparr>, w) files = (r, wb)"
    by (simp add: processBatchWithDelay_def)
  from batch_events [OF this] obtain bevs where b:
    "trace wb = trace w @ bevs"
    "filter isSleep bevs = replicate (requests wb - requests w) (Sleep 1000)"
    "length (filter isRequest bevs) = requests wb - requests w"
    "now wb = now w + 1000 * (requests wb - requests w)"
    by blast
  have "added w w' = evs" "added w wb = bevs"
    using e(1) b(1) by (simp_all add: added_append)
  then show ?thesis
    using step batch e b by (simp add: Let_def)
qed

theorem pacing_follows_each_request_witness:
  "filter isRequest (added flatWorld (snd (processFile docsCfg echo (noCounts, flatWorld) ''src/one.md''))) =
     [GenerateContent ''a1''] \<and>
   last (added flatWorld (snd (processFile docsCfg echo (noCounts, flatWorld) ''src/one.md''))) =
     Sleep 1000 \<and>
   now (snd (processFile docsCfg echo (noCounts, flatWorld) ''src/one.md'')) = 1005"
proof -
  have r: "filter isRequest (added flatWorld (snd (processFile docsCfg echo (noCounts, flatWorld) ''src/one.md''))) =
     [GenerateContent ''a1'']"
    by code_simp
  have n: "now flatWorld = 5" by (simp add: flatWorld_def)
  from pacing_follows_each_request [of docsCfg echo noCounts flatWorld "''src/one.md''"] r n
  show ?thesis by (simp add: Let_def)
qed

theorem no_delay_after_skipped_item_counterexample:
  "skippedCount (fst (processBatchWithDelay docsCfg echo [''src/doc.md''] freshWorld)) = 1 \<and>
   filter isSleep (added freshWorld (snd (processBatchWithDelay docsCfg echo [''src/doc.md''] freshWorld))) = [] \<and>
   now (snd (processBatchWithDelay docsCfg echo [''src/doc.md''] freshWorld)) = now freshWorld"
  by code_simp

subsection \<open>Force mode\<close>

lemma forced_round_requests:
  assumes "FORCE_TRANSLATE cfg" "nodeAt w f = Some (File content m)" "content \<noteq> []"
  shows "filter isRequest (added w (snd (processFile cfg ai (c, w) f))) = [GenerateContent content]"
proof -
  obtain c' w' where step: "processFile cfg ai (c, w) f = (c', w')"
    by (cases "processFile cfg ai (c, w) f")
  have rd: "fst (readMarkdownFile f w) = content"
    using assms(2) by (simp add: readMarkdownFile_eq)
  from round_events [OF step] obtain evs where e:
    "trace w' = trace w @ evs"
    "filter isRequest evs =
      (if requests w' = requests w then [] else [GenerateContent (fst (readMarkdownFile f w))])"
    by blast
  have "requests w' = Suc (requests w)"
    using step
  proof (cases rule: processFile_cases)
    case (Skipped checks)
    with assms(1) show ?thesis by simp
  next
    case (Unread checks errs)
    with rd assms(3) show ?thesis by simp
  next
    case (Failed checks errs)
    then show ?thesis by simp
  next
    case (Translated checks ja w3)
    then show ?thesis by simp
  qed
  with e rd step show ?thesis by (simp add: added_append)
qed

text \<open>
  Claim C8. With force mode a batch never calls \<open>stat\<close> (the only calls of \<open>stat\<close> in a
  batch are those of \<open>isAlreadyTranslated\<close>), reads every discovered document, in order,
  and skips none; and a round whose document has content requests its translation,
  whatever outputs exist.
\<close>

theorem force_bypasses_staleness_check:
  assumes "FORCE_TRANSLATE cfg"
  shows "(let r = processBatchWithDelay cfg ai files w; evs = added w (snd r)
          in skippedCount (fst r) = 0 \<and> filter isStat evs = [] \<and>
             filter isRead evs = map ReadFile files) \<and>
         (nodeAt w f = Some (File content m) \<and> content \<noteq> [] \<longrightarrow>
            filter isRequest (added w (snd (processFile cfg ai (c, w) f))) =
              [GenerateContent content])"
proof -
  obtain r wb where batch: "processBatchWithDelay cfg ai files w = (r, wb)"
    by (cases "processBatchWithDelay cfg ai files w")
  then have "foldl (processFile cfg ai) (\<lparr>translatedCount = 0, skippedCount = 0\<rparr>, w) files = (r, wb)"
    by (simp add: processBatchWithDelay_def)
  from batch_events [OF this] assms obtain evs where b:
    "trace wb = trace w @ evs" "filter isStat evs = []" "skippedCount r = 0"
    "filter isRead evs = map ReadFile files"
    by auto
  then have "added w wb = evs" by (simp add: added_append)
  with b batch forced_round_requests [OF assms, of w f content m ai c] show ?thesis
    by (simp add: Let_def)
qed

theorem force_bypasses_staleness_check_witness:
  "FORCE_TRANSLATE forceCfg \<and>
   skippedCount (fst (processBatchWithDelay forceCfg echo [''src/doc.md''] freshWorld)) = 0 \<and>
   filter isStat (added freshWorld (snd (processBatchWithDelay forceCfg echo [''src/doc.md''] freshWorld))) = [] \<and>
   filter isRequest (added freshWorld (snd (processFile forceCfg echo (noCounts, freshWorld) ''src/doc.md''))) =
     [GenerateContent ''en''] \<and>
   translatedCount (fst (processBatchWithDelay forceCfg echo [''src/doc.md''] freshWorld)) = 1 \<and>
   nodeAt (snd (processBatchWithDelay forceCfg echo [''src/doc.md''] freshWorld)) ''out/m1/doc.md'' =
     Some (File ''ja:en'' 9)"
proof -
  have f: "FORCE_TRANSLATE forceCfg" by (simp add: forceCfg_def)
  have n: "nodeAt freshWorld ''src/doc.md'' = Some (File ''en'' 3)" by code_simp
  have t: "translatedCount (fst (processBatchWithDelay forceCfg echo [''src/doc.md''] freshWorld)) = 1"
    by code_simp
  have o: "nodeAt (snd (processBatchWithDelay forceCfg echo [''src/doc.md''] freshWorld)) ''out/m1/doc.md'' =
     Some (File ''ja:en'' 9)"
    by code_simp
  from force_bypasses_staleness_check [OF f, of echo "[''src/doc.md'']" freshWorld "''src/doc.md''" "''en''" 3 noCounts]
    n f t o
  show ?thesis by (simp add: Let_def)
qed

subsection \<open>A failed translation\<close>






subsection \<open>The directory of the model under the output root\<close>

lemma slash_not_kept: "\<not> keptInDirName (CHR ''/'')"
  by (simp add: keptInDirName_def isWordChar_def)

lemma dot_kept: "keptInDirName (CHR ''.'')"
  by (simp add: keptInDirName_def)

lemma replaceInvalid_no_slash: "CHR ''/'' \<notin> set (replaceInvalid s)"
  using slash_not_kept by (induction s) auto

lemma replaceInvalid_Nil: "replaceInvalid s = [] \<longleftrightarrow> s = []"
  by (cases s) auto

lemma replaceInvalid_dot: "replaceInvalid s = ''.'' \<longleftrightarrow> s = ''.''"
proof (cases s)
  case Nil
  then show ?thesis by simp
next
  case (Cons c cs)
  then show ?thesis using dot_kept by (auto simp: replaceInvalid_Nil)
qed

lemma replaceInvalid_dotdot: "replaceInvalid s = ''..'' \<longleftrightarrow> s = ''..''"
proof (cases s)
  case Nil
  then show ?thesis by simp
next
  case (Cons c cs)
  have "replaceInvalid (c # cs) = ''..'' \<longleftrightarrow> c = CHR ''.'' \<and> replaceInvalid cs = ''.''"
    using dot_kept by auto
  then show ?thesis using Cons by (simp add: replaceInvalid_dot)
qed

lemma plainName_MODEL_DIR_NAME:
  "plainName (MODEL_DIR_NAME cfg) \<longleftrightarrow>
     MODEL_NAME cfg \<noteq> [] \<and> MODEL_NAME cfg \<noteq> ''.'' \<and> MODEL_NAME cfg \<noteq> ''..''"
  by (simp add: plainName_def MODEL_DIR_NAME_def replaceInvalid_no_slash replaceInvalid_Nil
      replaceInvalid_dot replaceInvalid_dotdot)

lemma resolveSegments_below_names:
  "d \<noteq> [] \<Longrightarrow> list_all plainName names \<Longrightarrow> names \<noteq> [] \<Longrightarrow>
     resolveSegments wd (d @ CHR ''/'' # joinSegments names) = resolveSegments wd d @ names"
proof (induction names arbitrary: d)
  case Nil
  then show ?case by simp
next
  case (Cons n ns)
  then have n: "plainName n" by simp
  have c: "resolveSegments wd (d @ CHR ''/'' # n) = resolveSegments wd d @ [n]"
    using resolveSegments_child [OF n, of wd d] Cons.prems(1) by simp
  show ?case
  proof (cases "ns = []")
    case True
    then show ?thesis using c by simp
  next
    case False
    have "resolveSegments wd ((d @ CHR ''/'' # n) @ CHR ''/'' # joinSegments ns) =
          resolveSegments wd (d @ CHR ''/'' # n) @ ns"
      using Cons.prems(2) False by (intro Cons.IH) simp_all
    then show ?thesis using c False by (simp add: joinSegments_Cons)
  qed
qed

lemma resolveSegments_outputPathOf:
  assumes "plainName (MODEL_DIR_NAME cfg)" "list_all plainName names" "names \<noteq> []"
  shows "resolveSegments wd (outputPathOf cfg wd (pathBelow (SOURCE_DIR cfg) names)) =
         resolveSegments wd (BASE_OUTPUT_DIR cfg) @ MODEL_DIR_NAME cfg # names"
proof -
  have o: "resolveSegments wd (OUTPUT_DIR cfg) =
        resolveSegments wd (BASE_OUTPUT_DIR cfg) @ [MODEL_DIR_NAME cfg]"
    unfolding OUTPUT_DIR_def by (rule resolveSegments_join [OF assms(1)])
  have m: "MODEL_DIR_NAME cfg \<noteq> []" using assms(1) by (simp add: plainName_def)
  have d: "OUTPUT_DIR cfg \<noteq> []"
    using m by (simp add: OUTPUT_DIR_def path_join_def path_normalize_not_Nil)
  have r: "joinSegments names \<noteq> []"
    using joinSegments_plain_not_absolute [OF assms(3) assms(2)] by simp
  have "path_relative wd (SOURCE_DIR cfg) (pathBelow (SOURCE_DIR cfg) names) = joinSegments names"
    by (rule path_relative_below) (rule resolveSegments_pathBelow [OF assms(2)])
  then have "outputPathOf cfg wd (pathBelow (SOURCE_DIR cfg) names) =
      path_normalize (OUTPUT_DIR cfg @ CHR ''/'' # joinSegments names)"
    using d r by (simp add: outputPathOf_def path_join_def)
  then show ?thesis
    using resolveSegments_below_names [OF d assms(2) assms(3), of wd] o
    by (simp add: resolveSegments_normalize)
qed

text \<open>
  Claim C10, amended. The name \<open>MODEL_DIR_NAME\<close> is the model name with every character
  that is not a word character, a dot or a hyphen replaced by one underscore (position
  by position, the length unchanged); it is the configured model name itself exactly
  when the name has only such characters. It is the name of a directory exactly when the
  model name is not empty, \<open>.\<close> or \<open>..\<close>; then it is the directory component used under
  the output root: \<open>OUTPUT_DIR\<close> has it as its base name and resolves to the directory
  of the output root followed by it, and the file written for a document \<open>names\<close> below
  the source root resolves to the output root, this component, and \<open>names\<close>.
\<close>

theorem model_dir_component_sanitized:
  "length (MODEL_DIR_NAME cfg) = length (MODEL_NAME cfg) \<and>
   (\<forall>i < length (MODEL_NAME cfg).
      MODEL_DIR_NAME cfg ! i =
        (if isWordChar (MODEL_NAME cfg ! i) \<or> MODEL_NAME cfg ! i = CHR ''.''
            \<or> MODEL_NAME cfg ! i = CHR ''-''
         then MODEL_NAME cfg ! i else CHR ''_'')) \<and>
   (MODEL_DIR_NAME cfg = MODEL_NAME cfg \<longleftrightarrow>
      (\<forall>c \<in> set (MODEL_NAME cfg). isWordChar c \<or> c = CHR ''.'' \<or> c = CHR ''-'')) \<and>
   (plainName (MODEL_DIR_NAME cfg) \<longleftrightarrow>
      MODEL_NAME cfg \<noteq> [] \<and> MODEL_NAME cfg \<noteq> ''.'' \<and> MODEL_NAME cfg \<noteq> ''..'') \<and>
   (MODEL_NAME cfg \<noteq> [] \<and> MODEL_NAME cfg \<noteq> ''.'' \<and> MODEL_NAME cfg \<noteq> ''..'' \<longrightarrow>
      path_basename (OUTPUT_DIR cfg) = MODEL_DIR_NAME cfg \<and>
      resolveSegments wd (OUTPUT_DIR cfg) =
        resolveSegments wd (BASE_OUTPUT_DIR cfg) @ [MODEL_DIR_NAME cfg] \<and>
      (list_all plainName names \<and> names \<noteq> [] \<longrightarrow>
         resolveSegments wd (outputPathOf cfg wd (pathBelow (SOURCE_DIR cfg) names)) =
           resolveSegments wd (BASE_OUTPUT_DIR cfg) @ MODEL_DIR_NAME cfg # names))"
proof (intro conjI impI)
  show "length (MODEL_DIR_NAME cfg) = length (MODEL_NAME cfg)"
    by (simp add: MODEL_DIR_NAME_def replaceInvalid_length)
  show "\<forall>i < length (MODEL_NAME cfg).
      MODEL_DIR_NAME cfg ! i =
        (if isWordChar (MODEL_NAME cfg ! i) \<or> MODEL_NAME cfg ! i = CHR ''.''
            \<or> MODEL_NAME cfg ! i = CHR ''-''
         then MODEL_NAME cfg ! i else CHR ''_'')"
    using replaceInvalid_nth [of _ "MODEL_NAME cfg"]
    by (simp add: MODEL_DIR_NAME_def keptInDirName_def)
  show "MODEL_DIR_NAME cfg = MODEL_NAME cfg \<longleftrightarrow>
      (\<forall>c \<in> set (MODEL_NAME cfg). isWordChar c \<or> c = CHR ''.'' \<or> c = CHR ''-'')"
    using replaceInvalid_fixed [of "MODEL_NAME cfg"]
    by (simp add: MODEL_DIR_NAME_def keptInDirName_def)
  show "plainName (MODEL_DIR_NAME cfg) \<longleftrightarrow>
      MODEL_NAME cfg \<noteq> [] \<and> MODEL_NAME cfg \<noteq> ''.'' \<and> MODEL_NAME cfg \<noteq> ''..''"
    by (rule plainName_MODEL_DIR_NAME)
next
  assume "MODEL_NAME cfg \<noteq> [] \<and> MODEL_NAME cfg \<noteq> ''.'' \<and> MODEL_NAME cfg \<noteq> ''..''"
  then have p: "plainName (MODEL_DIR_NAME cfg)" by (simp add: plainName_MODEL_DIR_NAME)
  show "path_basename (OUTPUT_DIR cfg) = MODEL_DIR_NAME cfg"
    unfolding OUTPUT_DIR_def by (rule path_basename_join [OF p])
  show "resolveSegments wd (OUTPUT_DIR cfg) =
        resolveSegments wd (BASE_OUTPUT_DIR cfg) @ [MODEL_DIR_NAME cfg]"
    unfolding OUTPUT_DIR_def by (rule resolveSegments_join [OF p])
  assume n: "list_all plainName names \<and> names \<noteq> []"
  show "resolveSegments wd (outputPathOf cfg wd (pathBelow (SOURCE_DIR cfg) names)) =
           resolveSegments wd (BASE_OUTPUT_DIR cfg) @ MODEL_DIR_NAME cfg # names"
    using resolveSegments_outputPathOf [OF p] n by simp
qed

theorem model_dir_component_sanitized_witness:
  "MODEL_NAME spacedCfg = ''models/gemini 2.0'' \<and>
   MODEL_DIR_NAME spacedCfg = ''models_gemini_2.0'' \<and>
   path_basename (OUTPUT_DIR spacedCfg) = ''models_gemini_2.0'' \<and>
   resolveSegments ''/w'' (OUTPUT_DIR spacedCfg) = [''w'', ''out'', ''models_gemini_2.0''] \<and>
   resolveSegments ''/w'' (outputPathOf spacedCfg ''/w'' (pathBelow ''src'' [''a'', ''doc.md''])) =
     [''w'', ''out'', ''models_gemini_2.0'', ''a'', ''doc.md'']"
proof -
  have a: "MODEL_NAME spacedCfg = ''models/gemini 2.0''" "SOURCE_DIR spacedCfg = ''src''"
    by (simp_all add: spacedCfg_def)
  have b: "MODEL_DIR_NAME spacedCfg = ''models_gemini_2.0''"
    by code_simp
  have c: "resolveSegments ''/w'' (BASE_OUTPUT_DIR spacedCfg) = [''w'', ''out'']"
    by code_simp
  have d: "list_all plainName [''a'', ''doc.md'']"
    by code_simp
  show ?thesis
    using model_dir_component_sanitized [of spacedCfg "''/w''" "[''a'', ''doc.md'']"] a b c d
    by simp
qed

text \<open>
  The claim as first worded fails for the model name \<open>..\<close>: the sanitising leaves it as it
  is, and \<open>path.join\<close> resolves it against the output root \<open>out\<close>, so that \<open>OUTPUT_DIR\<close>
  is \<open>.\<close>, no component \<open>..\<close> is used under the output root, and a document is written
  outside of it.
\<close>

theorem model_dir_not_a_component_counterexample:
  "MODEL_DIR_NAME dotsCfg = ''..'' \<and>
   OUTPUT_DIR dotsCfg = ''.'' \<and>
   path_basename (OUTPUT_DIR dotsCfg) \<noteq> MODEL_DIR_NAME dotsCfg \<and>
   resolveSegments ''/w'' (OUTPUT_DIR dotsCfg) = [''w''] \<and>
   resolveSegments ''/w'' (BASE_OUTPUT_DIR dotsCfg) = [''w'', ''out''] \<and>
   outputPathOf dotsCfg ''/w'' ''src/a/doc.md'' = ''a/doc.md''"
  by code_simp

subsection \<open>Resolving paths in the tree\<close>

lemma lookup_Dangling [simp]: "lookup Dangling k = None"
  by (cases k) simp_all

lemma lookup_File: "lookup (File c m) k = (if k = [] then Some (File c m) else None)"
  by (cases k) simp_all

lemma lookup_not_Dangling: "lookup r k \<noteq> Some Dangling"
  by (induction r k rule: lookup.induct) (simp_all split: option.splits)

lemma lookup_append:
  "lookup r (k @ q) = (case lookup r k of None \<Rightarrow> None | Some n \<Rightarrow> lookup n q)"
  by (induction r k rule: lookup.induct) (simp_all add: lookup_File split: option.splits)

lemma lookup_Cons_Some: "lookup n (s # ss) = Some x \<Longrightarrow> \<exists>rd m es. n = Dir rd m es"
  by (cases n) simp_all

lemma directoryAt_prefix: "directoryAt r (k @ q) \<Longrightarrow> directoryAt r k"
proof (cases q)
  case Nil
  assume "directoryAt r (k @ q)"
  then show ?thesis using Nil by simp
next
  case (Cons s ss)
  assume "directoryAt r (k @ q)"
  then obtain x where x: "lookup r (k @ s # ss) = Some x"
    using Cons by (auto simp: directoryAt_def split: option.splits)
  then obtain n where n: "lookup r k = Some n" "lookup n (s # ss) = Some x"
    by (auto simp: lookup_append split: option.splits)
  then show ?thesis using lookup_Cons_Some [OF n(2)] by (auto simp: directoryAt_def)
qed

lemma directoryAt_butlast: "directoryAt r k \<Longrightarrow> directoryAt r (butlast k)"
proof (cases "k = []")
  case True
  assume "directoryAt r k"
  then show ?thesis using True by simp
next
  case False
  assume "directoryAt r k"
  then have "directoryAt r (butlast k @ [last k])" using False by simp
  then show ?thesis by (rule directoryAt_prefix)
qed

lemma walk_append:
  "walk r cur (xs @ ys) = (case walk r cur xs of None \<Rightarrow> None | Some c \<Rightarrow> walk r c ys)"
  by (induction xs arbitrary: cur) simp_all

lemma walk_single:
  "walk r cur [s] =
     (if directoryAt r cur then
        Some (if s = [] \<or> s = ''.'' then cur else if s = ''..'' then butlast cur else cur @ [s])
      else None)"
  by simp

lemma walk_Some_directoryAt: "walk r cur (s # ss) = Some k \<Longrightarrow> directoryAt r cur"
  by (simp split: if_splits)


lemma normalizeStep_no_dotdot:
  "''..'' \<notin> set res \<Longrightarrow> ''..'' \<notin> set (normalizeStep False res seg)"
  by (cases res) (auto simp: normalizeStep_def)

lemma foldl_normalizeStep_no_dotdot:
  "''..'' \<notin> set res \<Longrightarrow> ''..'' \<notin> set (foldl (normalizeStep False) res segs)"
  by (induction segs arbitrary: res) (simp_all add: normalizeStep_no_dotdot)

lemma walk_snoc:
  "walk r cur (xs @ [s]) = Some k \<longleftrightarrow>
     (\<exists>k0. walk r cur xs = Some k0 \<and> directoryAt r k0 \<and>
       k = (if s = [] \<or> s = ''.'' then k0 else if s = ''..'' then butlast k0 else k0 @ [s]))"
proof (cases "walk r cur xs")
  case None
  then show ?thesis by (simp add: walk_append)
next
  case (Some k0)
  then have "walk r cur (xs @ [s]) = walk r k0 [s]" by (simp add: walk_append)
  then show ?thesis using Some unfolding walk_single by auto
qed

lemma normalizeSegments_snoc:
  "normalizeSegments b (xs @ [s]) = rev (normalizeStep b (rev (normalizeSegments b xs)) s)"
  by (simp add: normalizeSegments_def)

lemma walk_normalizeSegments:
  assumes "walk r cur segs = Some k" "b \<or> cur = []"
  shows "walk r cur (normalizeSegments b segs) = Some k"
  using assms(1)
proof (induction segs arbitrary: k rule: rev_induct)
  case Nil
  then show ?case by (simp add: normalizeSegments_def)
next
  case (snoc s xs)
  define st where "st = rev (normalizeSegments b xs)"
  obtain k0 where k0: "walk r cur xs = Some k0" "directoryAt r k0"
    and k: "k = (if s = [] \<or> s = ''.'' then k0 else if s = ''..'' then butlast k0 else k0 @ [s])"
    using snoc.prems unfolding walk_snoc by blast
  have ih: "walk r cur (rev st) = Some k0"
    using snoc.IH [OF k0(1)] by (simp add: st_def)
  have ne: "\<forall>x \<in> set st. x \<noteq> [] \<and> x \<noteq> ''.''"
    unfolding st_def normalizeSegments_def using foldl_normalizeStep_nonempty [of "[]" b xs] by simp
  have nd: "\<not> b \<Longrightarrow> ''..'' \<notin> set st"
    unfolding st_def normalizeSegments_def using foldl_normalizeStep_no_dotdot [of "[]" xs] by simp
  have goal: "normalizeSegments b (xs @ [s]) = rev (normalizeStep b st s)"
    unfolding st_def by (rule normalizeSegments_snoc)
  consider (skip) "s = [] \<or> s = ''.''" | (up) "s = ''..''" | (name) "s \<noteq> []" "s \<noteq> ''.''" "s \<noteq> ''..''"
    by blast
  then show ?case
  proof cases
    case skip
    then have "normalizeStep b st s = st" by (auto simp: normalizeStep_def)
    moreover have "k = k0" using k skip by simp
    ultimately show ?thesis using ih goal by simp
  next
    case name
    then have "normalizeStep b st s = s # st" by (simp add: normalizeStep_def)
    then have "walk r cur (normalizeSegments b (xs @ [s])) = walk r cur (rev st @ [s])"
      using goal by simp
    also have "\<dots> = Some (k0 @ [s])"
      unfolding walk_snoc using ih k0(2) name by simp
    finally show ?thesis using k name by simp
  next
    case up
    then have kb: "k = butlast k0" using k by simp
    show ?thesis
    proof (cases st)
      case Nil
      then have c: "k0 = cur" using ih by simp
      show ?thesis
      proof (cases b)
        case True
        then have "normalizeStep b st s = [''..'']" using Nil up by (simp add: normalizeStep_def)
        then have "walk r cur (normalizeSegments b (xs @ [s])) = walk r cur [''..'']"
          using goal by simp
        then show ?thesis unfolding walk_single using k0(2) c kb by simp
      next
        case False
        then have "normalizeStep b st s = []" "cur = []"
          using Nil up assms(2) by (simp_all add: normalizeStep_def)
        then show ?thesis using goal c kb by simp
      qed
    next
      case (Cons prev below)
      show ?thesis
      proof (cases "prev = ''..''")
        case True
        then have b: b using nd Cons by auto
        then have "normalizeStep b st s = ''..'' # st"
          using Cons up True by (simp add: normalizeStep_def)
        then have "walk r cur (normalizeSegments b (xs @ [s])) = walk r cur (rev st @ [''..''])"
          using goal by simp
        also have "\<dots> = Some (butlast k0)"
          unfolding walk_snoc using ih k0(2) by simp
        finally show ?thesis using kb by simp
      next
        case False
        have p: "prev \<noteq> []" "prev \<noteq> ''.''" using ne Cons by auto
        have "walk r cur (rev below @ [prev]) = Some k0" using ih Cons by simp
        then obtain k1 where k1: "walk r cur (rev below) = Some k1" "k0 = k1 @ [prev]"
          unfolding walk_snoc using p False by auto
        have "normalizeStep b st s = below"
          using Cons up False by (simp add: normalizeStep_def)
        then show ?thesis using goal k1 kb by simp
      qed
    qed
  qed
qed

lemma kernelKey_absolute:
  "isAbsolute p \<Longrightarrow> kernelKey r wd p = walk r [] (splitPath p)"
  by (auto simp: kernelKey_def isAbsolute_def)

lemma kernelKey_relative:
  "\<not> isAbsolute p \<Longrightarrow> p \<noteq> [] \<Longrightarrow>
     kernelKey r wd p = walk r (normalizeSegments False (splitPath wd)) (splitPath p)"
  by (simp add: kernelKey_def)

lemma kernelKey_not_Nil: "kernelKey r wd p = Some k \<Longrightarrow> p \<noteq> []"
  by (auto simp: kernelKey_def)

lemma isAbsolute_path_join:
  assumes "d \<noteq> []" "f \<noteq> []"
  shows "isAbsolute (path_join [d, f]) = isAbsolute d"
proof -
  have "path_join [d, f] = path_normalize (d @ CHR ''/'' # f)"
    using assms by (simp add: path_join_pair)
  then show ?thesis using assms(1) by (simp add: isAbsolute_normalize isAbsolute_append)
qed

lemma splitPath_path_join:
  assumes "plainName f"
  shows "splitPath (path_join [d, f]) =
           (if isAbsolute d then [[]] else []) @
           normalizeSegments (\<not> isAbsolute d) (splitPath d) @ [f]"
proof -
  let ?M = "normalizeSegments (\<not> isAbsolute d) (splitPath d)"
  have f: "CHR ''/'' \<notin> set f" using assms by (simp add: plainName_def)
  have ns: "\<forall>x \<in> set (?M @ [f]). CHR ''/'' \<notin> set x"
    using normalizeSegments_proper [of "\<not> isAbsolute d" d] f
    by (auto simp: list_all_iff properSegment_def)
  have sp: "splitPath (joinSegments (?M @ [f])) = ?M @ [f]"
    by (rule splitPath_joinSegments [OF _ ns]) simp
  show ?thesis
  proof (cases "isAbsolute d")
    case True
    have "path_join [d, f] = CHR ''/'' # joinSegments (?M @ [f])"
      unfolding path_join_shape [OF assms] using True by simp
    then have "splitPath (path_join [d, f]) = [] # splitPath (joinSegments (?M @ [f]))"
      by (simp only: splitPath_slash_first)
    then show ?thesis using True sp by simp
  next
    case False
    have "path_join [d, f] = joinSegments (?M @ [f])"
      unfolding path_join_shape [OF assms] using False by simp
    then show ?thesis using False sp by simp
  qed
qed

lemma walk_first:
  assumes "walk r cur (splitPath d) = Some k"
  shows "directoryAt r cur"
proof (cases "splitPath d")
  case Nil
  then show ?thesis using splitPath_not_Nil [of d] by simp
next
  case (Cons s ss)
  then have "walk r cur (s # ss) = Some k" using assms by (simp only:)
  then show ?thesis by (rule walk_Some_directoryAt)
qed

lemma walk_child:
  assumes "walk r cur segs = Some k" "b \<or> cur = []" "directoryAt r k" "plainName f"
  shows "walk r cur (normalizeSegments b segs @ [f]) = Some (k @ [f])"
proof -
  have f: "f \<noteq> []" "f \<noteq> ''.''" "f \<noteq> ''..''"
    using assms(4) by (simp_all add: plainName_def)
  have "walk r cur (normalizeSegments b segs) = Some k"
    by (rule walk_normalizeSegments [OF assms(1) assms(2)])
  then show ?thesis
    unfolding walk_snoc using assms(3) f by simp
qed

lemma walk_empty_first: "directoryAt r cur \<Longrightarrow> walk r cur ([] # segs) = walk r cur segs"
  by simp

lemma kernelKey_child_absolute:
  assumes "kernelKey r wd d = Some k" "directoryAt r k" "plainName f" "isAbsolute d"
  shows "kernelKey r wd (path_join [d, f]) = Some (k @ [f])"
proof -
  let ?M = "normalizeSegments False (splitPath d)"
  have d: "d \<noteq> []" using assms(1) by (rule kernelKey_not_Nil)
  have f: "f \<noteq> []" using assms(3) by (simp add: plainName_def)
  have ab: "isAbsolute (path_join [d, f])"
    using isAbsolute_path_join [OF d f] assms(4) by simp
  have w: "walk r [] (splitPath d) = Some k"
    using assms(1) assms(4) by (simp add: kernelKey_absolute)
  have r0: "directoryAt r []" using w by (rule walk_first)
  have "walk r [] (?M @ [f]) = Some (k @ [f])"
    by (rule walk_child [OF w _ assms(2) assms(3)]) simp
  then have 1: "walk r [] ([] # (?M @ [f])) = Some (k @ [f])"
    by (simp only: walk_empty_first [OF r0])
  have 2: "splitPath (path_join [d, f]) = [] # (?M @ [f])"
    unfolding splitPath_path_join [OF assms(3)] using assms(4) by simp
  have "kernelKey r wd (path_join [d, f]) = walk r [] (splitPath (path_join [d, f]))"
    by (rule kernelKey_absolute [OF ab])
  then show ?thesis by (simp only: 1 2)
qed

lemma kernelKey_child_relative:
  assumes "kernelKey r wd d = Some k" "directoryAt r k" "plainName f" "\<not> isAbsolute d"
  shows "kernelKey r wd (path_join [d, f]) = Some (k @ [f])"
proof -
  let ?M = "normalizeSegments True (splitPath d)"
  let ?c = "normalizeSegments False (splitPath wd)"
  have d: "d \<noteq> []" using assms(1) by (rule kernelKey_not_Nil)
  have f: "f \<noteq> []" using assms(3) by (simp add: plainName_def)
  have ab: "\<not> isAbsolute (path_join [d, f])"
    using isAbsolute_path_join [OF d f] assms(4) by simp
  have nn: "path_join [d, f] \<noteq> []"
    using f by (simp add: path_join_pair path_normalize_not_Nil)
  have w: "walk r ?c (splitPath d) = Some k"
    using assms(1) kernelKey_relative [OF assms(4) d] by simp
  have 1: "walk r ?c (?M @ [f]) = Some (k @ [f])"
    by (rule walk_child [OF w _ assms(2) assms(3)]) simp
  have 2: "splitPath (path_join [d, f]) = ?M @ [f]"
    unfolding splitPath_path_join [OF assms(3)] using assms(4) by simp
  have "kernelKey r wd (path_join [d, f]) = walk r ?c (splitPath (path_join [d, f]))"
    by (rule kernelKey_relative [OF ab nn])
  then show ?thesis by (simp only: 1 2)
qed

lemma kernelKey_child:
  assumes "kernelKey r wd d = Some k" "directoryAt r k" "plainName f"
  shows "kernelKey r wd (path_join [d, f]) = Some (k @ [f])"
  using kernelKey_child_absolute [OF assms] kernelKey_child_relative [OF assms] by blast

lemma nodeAt_child:
  assumes "nodeAt w d = Some (Dir rd m es)" "plainName f"
  shows "nodeAt w (path_join [d, f]) = (case map_of es f of None \<Rightarrow> None | Some c \<Rightarrow> lookup c [])"
proof -
  obtain k where k: "kernelKey (root w) (cwd w) d = Some k" "lookup (root w) k = Some (Dir rd m es)"
    using assms(1) by (auto simp: nodeAt_def split: option.splits)
  have "directoryAt (root w) k" using k(2) by (simp add: directoryAt_def)
  then have "kernelKey (root w) (cwd w) (path_join [d, f]) = Some (k @ [f])"
    using k(1) assms(2) by (intro kernelKey_child)
  then show ?thesis using k(2) by (simp add: nodeAt_def lookup_append)
qed

subsection \<open>The scanner comes to an end\<close>

lemma fs_stat_fields:
  "root (snd (fs_stat p w)) = root w" "cwd (snd (fs_stat p w)) = cwd w"
  "requests (snd (fs_stat p w)) = requests w" "now (snd (fs_stat p w)) = now w"
  by (simp_all add: fs_stat_def emit_def)

lemma fs_readdir_fields:
  "root (snd (fs_readdir p w)) = root w" "cwd (snd (fs_readdir p w)) = cwd w"
  "requests (snd (fs_readdir p w)) = requests w" "now (snd (fs_readdir p w)) = now w"
  by (simp_all add: fs_readdir_def emit_def)

lemma map_of_wellFormed:
  assumes "wellFormed (Dir r m es)" "map_of es f = Some c"
  shows "wellFormed c" "depth c < depth (Dir r m es)"
proof -
  have "(f, c) \<in> set es" using assms(2) by (rule map_of_SomeD)
  then show "wellFormed c" using assms(1) by (auto simp: list_all_iff)
  have "(f, c) \<in> set es \<Longrightarrow> depth c \<le> foldr (\<lambda>e d. max (depth (snd e)) d) es 0"
    by (induction es) auto
  then show "depth c < depth (Dir r m es)" using \<open>(f, c) \<in> set es\<close> by simp
qed

lemma lookup_wellFormed:
  "lookup r k = Some n \<Longrightarrow> wellFormed r \<Longrightarrow> wellFormed n \<and> depth n \<le> depth r"
proof (induction r k rule: lookup.induct)
  case (3 r m es s ss)
  then obtain c where c: "map_of es s = Some c" "lookup c ss = Some n"
    by (auto split: option.splits)
  have "wellFormed c" "depth c < depth (Dir r m es)"
    using map_of_wellFormed [OF "3.prems"(2) c(1)] by simp_all
  then show ?case using "3.IH" [OF c(1) c(2)] by simp
qed simp_all

lemma nodeAt_wellFormed:
  "nodeAt w p = Some n \<Longrightarrow> wellFormed (root w) \<Longrightarrow> wellFormed n \<and> depth n \<le> depth (root w)"
  by (auto simp: nodeAt_def split: option.splits dest: lookup_wellFormed)


lemma fs_readdir_eq:
  "fs_readdir p w =
     ((case nodeAt w p of
         None \<Rightarrow> Inl ENOENT
       | Some (Dir r m es) \<Rightarrow> if r then Inr (map fst es) else Inl EACCES
       | Some n \<Rightarrow> Inl ENOTDIR),
      emit (Readdir p) w)"
  by (simp add: fs_readdir_def)

lemma scanEntries_total:
  assumes find: "\<And>p v c. nodeAt v p = Some c \<Longrightarrow> wellFormed c \<Longrightarrow> depth c < fuel \<Longrightarrow>
      \<exists>sub v'. findMarkdownFiles fuel p v = Some (sub, v') \<and> root v' = root v \<and> cwd v' = cwd v"
    and dir: "nodeAt w d = Some (Dir rd m es)" "wellFormed (Dir rd m es)"
      "depth (Dir rd m es) \<le> fuel" "set fs \<subseteq> fst ` set es"
  shows "\<exists>res w'. scanEntries fuel d fs acc w = Some (res, w') \<and> root w' = root w \<and> cwd w' = cwd w"
  using dir(1) dir(4)
proof (induction fs arbitrary: acc w)
  case Nil
  then show ?case by simp
next
  case (Cons entry rest)
  let ?p = "path_join [d, entry]"
  let ?w1 = "emit (Stat ?p) w"
  have fi: "entry \<in> fst ` set es" "set rest \<subseteq> fst ` set es" using Cons.prems(2) by simp_all
  then obtain c where c: "map_of es entry = Some c"
    using map_of_eq_None_iff [of es entry] by (cases "map_of es entry") auto
  then have mem: "(entry, c) \<in> set es" by (rule map_of_SomeD)
  then have pl: "plainName entry" using dir(2) by (auto simp: list_all_iff)
  have wc: "wellFormed c" "depth c < depth (Dir rd m es)"
    using map_of_wellFormed [OF dir(2) c] by simp_all
  have at: "nodeAt w ?p = lookup c []"
    using nodeAt_child [OF Cons.prems(1) pl] c by simp
  have d1: "nodeAt ?w1 d = Some (Dir rd m es)" using Cons.prems(1) by simp
  have step: "scanEntries fuel d (entry # rest) acc w =
      (case statOf (lookup c []) of
         Inl e \<Rightarrow> Some (Inl e, ?w1)
       | Inr stat \<Rightarrow>
           if isDirectory stat then
             (case findMarkdownFiles fuel ?p ?w1 of
                None \<Rightarrow> None
              | Some (subFiles, w2) \<Rightarrow> scanEntries fuel d rest (acc @ subFiles) w2)
           else if endsWith entry ''.md'' \<or> endsWith entry ''.markdown'' then
             scanEntries fuel d rest (acc @ [?p]) ?w1
           else scanEntries fuel d rest acc ?w1)"
    by (simp add: fs_stat_eq at Let_def)
  show ?case
  proof (cases c)
    case (File content mt)
    obtain res w' where "scanEntries fuel d rest
        (if endsWith entry ''.md'' \<or> endsWith entry ''.markdown'' then acc @ [?p] else acc) ?w1 =
          Some (res, w')" "root w' = root ?w1" "cwd w' = cwd ?w1"
      using Cons.IH [OF d1 fi(2)] by blast
    then show ?thesis using step File by (auto simp: statOf_def)
  next
    case Dangling
    then show ?thesis using step by (simp add: statOf_def)
  next
    case (Dir crd cm ces)
    have "nodeAt ?w1 ?p = Some c" using at Dir by simp
    moreover have "depth c < fuel" using wc(2) dir(3) by simp
    ultimately obtain sub w2 where f: "findMarkdownFiles fuel ?p ?w1 = Some (sub, w2)"
        "root w2 = root ?w1" "cwd w2 = cwd ?w1"
      using find [of ?w1 ?p c] wc(1) by blast
    have "nodeAt w2 d = Some (Dir rd m es)"
      using nodeAt_cong [of w2 ?w1 d] f(2) f(3) d1 by simp
    then obtain res w' where "scanEntries fuel d rest (acc @ sub) w2 = Some (res, w')"
        "root w' = root w2" "cwd w' = cwd w2"
      using Cons.IH [OF _ fi(2)] by blast
    then show ?thesis using step Dir f by (simp add: statOf_def)
  qed
qed

lemma findMarkdownFiles_step:
  assumes scan: "\<And>rd m es. nodeAt w d = Some (Dir rd m es) \<Longrightarrow>
      \<exists>res w'. scanEntries fuel d (map fst es) [] (emit (Readdir d) w) = Some (res, w') \<and>
        root w' = root w \<and> cwd w' = cwd w"
  shows "\<exists>files w'. findMarkdownFiles (Suc fuel) d w = Some (files, w') \<and>
           root w' = root w \<and> cwd w' = cwd w"
proof (cases "\<exists>m es. nodeAt w d = Some (Dir True m es)")
  case True
  then obtain m es where n: "nodeAt w d = Some (Dir True m es)" by blast
  obtain res w' where s: "scanEntries fuel d (map fst es) [] (emit (Readdir d) w) = Some (res, w')"
      "root w' = root w" "cwd w' = cwd w"
    using scan [OF n] by blast
  show ?thesis using n s by (cases res) (simp_all add: fs_readdir_eq)
next
  case False
  then have "fst (fs_readdir d w) \<noteq> Inr files" for files
    by (auto simp: fs_readdir_eq split: option.splits node.splits if_splits)
  then obtain e where "fs_readdir d w = (Inl e, emit (Readdir d) w)"
    by (cases "fst (fs_readdir d w)") (auto simp: fs_readdir_eq)
  then show ?thesis by simp
qed

lemma findMarkdownFiles_total_node:
  "nodeAt w d = Some c \<Longrightarrow> wellFormed c \<Longrightarrow> depth c < fuel \<Longrightarrow>
     \<exists>files w'. findMarkdownFiles fuel d w = Some (files, w') \<and> root w' = root w \<and> cwd w' = cwd w"
proof (induction fuel arbitrary: w d c)
  case 0
  then show ?case by simp
next
  case (Suc fuel)
  show ?case
  proof (rule findMarkdownFiles_step)
    fix rd m es
    assume n: "nodeAt w d = Some (Dir rd m es)"
    then have c: "c = Dir rd m es" using Suc.prems(1) by simp
    have "\<exists>res w'. scanEntries fuel d (map fst es) [] (emit (Readdir d) w) = Some (res, w') \<and>
        root w' = root (emit (Readdir d) w) \<and> cwd w' = cwd (emit (Readdir d) w)"
    proof (rule scanEntries_total [where rd = rd and m = m and es = es])
      show "nodeAt (emit (Readdir d) w) d = Some (Dir rd m es)" using n by simp
      show "wellFormed (Dir rd m es)" using Suc.prems(2) c by simp
      show "depth (Dir rd m es) \<le> fuel" using Suc.prems(3) c by simp
      show "set (map fst es) \<subseteq> fst ` set es" by simp
    next
      fix p v c'
      assume "nodeAt v p = Some c'" "wellFormed c'" "depth c' < fuel"
      then show "\<exists>files v'. findMarkdownFiles fuel p v = Some (files, v') \<and>
          root v' = root v \<and> cwd v' = cwd v"
        by (rule Suc.IH)
    qed
    then show "\<exists>res w'. scanEntries fuel d (map fst es) [] (emit (Readdir d) w) = Some (res, w') \<and>
        root w' = root w \<and> cwd w' = cwd w"
      by simp
  qed
qed

lemma findMarkdownFiles_missing:
  "nodeAt w d = None \<Longrightarrow>
     findMarkdownFiles (Suc fuel) d w =
       Some ([], console (DirectoryReadError d) (emit (Readdir d) w))"
  by (simp add: fs_readdir_eq)

lemma findMarkdownFiles_total:
  assumes "wellFormed (root w)" "depth (root w) < fuel"
  shows "\<exists>files w'. findMarkdownFiles fuel d w = Some (files, w') \<and> root w' = root w \<and> cwd w' = cwd w"
proof (cases "nodeAt w d")
  case None
  obtain n where "fuel = Suc n" using assms(2) by (cases fuel) auto
  then show ?thesis using findMarkdownFiles_missing [OF None, of n] by simp
next
  case (Some c)
  have "wellFormed c" "depth c < fuel"
    using nodeAt_wellFormed [OF Some assms(1)] assms(2) by simp_all
  then show ?thesis using Some by (intro findMarkdownFiles_total_node)
qed

lemma scanEntries_directory:
  assumes "statOf (nodeAt w (path_join [parent, entry])) = Inr st" "isDirectory st"
    "findMarkdownFiles fuel (path_join [parent, entry]) (emit (Stat (path_join [parent, entry])) w) =
       Some (sub, w2)"
  shows "scanEntries fuel parent (entry # rest) found w =
         scanEntries fuel parent rest (found @ sub) w2"
  using assms by (simp add: fs_stat_eq Let_def)

lemma scanEntries_unreadable:
  assumes "nodeAt w (path_join [parent, entry]) = Some (Dir False m es)"
  shows "scanEntries (Suc fuel) parent (entry # rest) found w =
         scanEntries (Suc fuel) parent rest found
           (console (DirectoryReadError (path_join [parent, entry]))
             (emit (Readdir (path_join [parent, entry])) (emit (Stat (path_join [parent, entry])) w)))"
proof -
  let ?p = "path_join [parent, entry]"
  have "findMarkdownFiles (Suc fuel) ?p (emit (Stat ?p) w) =
      Some ([], console (DirectoryReadError ?p) (emit (Readdir ?p) (emit (Stat ?p) w)))"
    using assms by (simp add: fs_readdir_eq)
  moreover have "statOf (nodeAt w ?p) = Inr \<lparr>isDirectory = True, isFile = False, mtime = m\<rparr>"
    using assms by (simp add: statOf_def)
  ultimately show ?thesis
    using scanEntries_directory [of w parent entry _ "Suc fuel" "[]" _ rest found] by simp
qed

text \<open>
  Claim C7. The scanner never throws and comes to an end: \<open>findMarkdownFiles\<close> returns a
  list for every directory argument (with fuel above the depth of the tree), and reads
  only. When the listing of a directory is rejected (the path is missing, is not a
  directory or may not be read), or the \<open>stat\<close> of one of its entries is, the call for
  that directory returns the empty list after printing the message. The loop of the
  parent goes on: it appends what the call for a subdirectory returned to the files
  found so far and continues with the remaining entries; for an unreadable subdirectory
  the files found so far are unchanged.
\<close>

theorem scanner_contains_errors:
  "(wellFormed (root w) \<and> depth (root w) < fuel \<longrightarrow>
      (\<exists>found w'. findMarkdownFiles fuel directory w = Some (found, w') \<and> root w' = root w)) \<and>
   (\<forall>e. fst (fs_readdir unreadable w) = Inl e \<longrightarrow>
      findMarkdownFiles (Suc fuel) unreadable w =
        Some ([], console (DirectoryReadError unreadable) (emit (Readdir unreadable) w))) \<and>
   (nodeAt w missing = None \<longrightarrow>
      findMarkdownFiles (Suc fuel) missing w =
        Some ([], console (DirectoryReadError missing) (emit (Readdir missing) w))) \<and>
   (\<forall>names w1 e w2.
      fs_readdir directory w = (Inr names, w1) \<and>
      scanEntries fuel directory names [] w1 = Some (Inl e, w2) \<longrightarrow>
      findMarkdownFiles (Suc fuel) directory w =
        Some ([], console (DirectoryReadError directory) w2)) \<and>
   (\<forall>st sub w2.
      statOf (nodeAt w (path_join [parent, entry])) = Inr st \<and> isDirectory st \<and>
      findMarkdownFiles fuel (path_join [parent, entry])
        (emit (Stat (path_join [parent, entry])) w) = Some (sub, w2) \<longrightarrow>
      scanEntries fuel parent (entry # rest) found w =
        scanEntries fuel parent rest (found @ sub) w2) \<and>
   (\<forall>m es. nodeAt w (path_join [parent, entry]) = Some (Dir False m es) \<longrightarrow>
      scanEntries (Suc fuel) parent (entry # rest) found w =
        scanEntries (Suc fuel) parent rest found
          (console (DirectoryReadError (path_join [parent, entry]))
            (emit (Readdir (path_join [parent, entry]))
              (emit (Stat (path_join [parent, entry])) w))))"
proof (intro conjI allI impI)
  assume "wellFormed (root w) \<and> depth (root w) < fuel"
  then show "\<exists>found w'. findMarkdownFiles fuel directory w = Some (found, w') \<and> root w' = root w"
    using findMarkdownFiles_total [of w fuel directory] by blast
next
  fix e
  assume "fst (fs_readdir unreadable w) = Inl e"
  then have "fs_readdir unreadable w = (Inl e, emit (Readdir unreadable) w)"
    by (simp add: fs_readdir_def)
  then show "findMarkdownFiles (Suc fuel) unreadable w =
      Some ([], console (DirectoryReadError unreadable) (emit (Readdir unreadable) w))"
    by simp
next
  assume "nodeAt w missing = None"
  then show "findMarkdownFiles (Suc fuel) missing w =
      Some ([], console (DirectoryReadError missing) (emit (Readdir missing) w))"
    by (rule findMarkdownFiles_missing)
next
  fix names w1 e w2
  assume "fs_readdir directory w = (Inr names, w1) \<and>
      scanEntries fuel directory names [] w1 = Some (Inl e, w2)"
  then show "findMarkdownFiles (Suc fuel) directory w =
      Some ([], console (DirectoryReadError directory) w2)"
    by simp
next
  fix st sub w2
  assume "statOf (nodeAt w (path_join [parent, entry])) = Inr st \<and> isDirectory st \<and>
      findMarkdownFiles fuel (path_join [parent, entry])
        (emit (Stat (path_join [parent, entry])) w) = Some (sub, w2)"
  then show "scanEntries fuel parent (entry # rest) found w =
      scanEntries fuel parent rest (found @ sub) w2"
    using scanEntries_directory by blast
next
  fix m es
  assume "nodeAt w (path_join [parent, entry]) = Some (Dir False m es)"
  then show "scanEntries (Suc fuel) parent (entry # rest) found w =
      scanEntries (Suc fuel) parent rest found
        (console (DirectoryReadError (path_join [parent, entry]))
          (emit (Readdir (path_join [parent, entry]))
            (emit (Stat (path_join [parent, entry])) w)))"
    by (rule scanEntries_unreadable)
qed

theorem scanner_contains_errors_witness:
  "wellFormed (root lockedWorld) \<and> depth (root lockedWorld) < 5 \<and>
   map_option fst (findMarkdownFiles 5 ''src'' lockedWorld) =
     Some [''src/a/x.md'', ''src/b/z.markdown''] \<and>
   fst (fs_readdir ''src/locked'' lockedWorld) = Inl EACCES \<and>
   findMarkdownFiles 6 ''src/locked'' lockedWorld =
     Some ([], console (DirectoryReadError ''src/locked'') (emit (Readdir ''src/locked'') lockedWorld)) \<and>
   nodeAt lockedWorld ''src/none'' = None \<and>
   findMarkdownFiles 6 ''src/none'' lockedWorld =
     Some ([], console (DirectoryReadError ''src/none'') (emit (Readdir ''src/none'') lockedWorld)) \<and>
   scanEntries 6 ''src'' [''locked'', ''b''] [''src/a/x.md''] lockedWorld =
     scanEntries 6 ''src'' [''b''] [''src/a/x.md'']
       (console (DirectoryReadError ''src/locked'')
         (emit (Readdir ''src/locked'') (emit (Stat ''src/locked'') lockedWorld))) \<and>
   scanEntries 5 ''src/a'' [''x.md'', ''gone''] [] (emit (Readdir ''src/a'') brokenWorld) =
     Some (Inl ENOENT,
       emit (Stat ''src/a/gone'') (emit (Stat ''src/a/x.md'') (emit (Readdir ''src/a'') brokenWorld))) \<and>
   findMarkdownFiles 6 ''src/a'' brokenWorld =
     Some ([], console (DirectoryReadError ''src/a'')
       (emit (Stat ''src/a/gone'') (emit (Stat ''src/a/x.md'') (emit (Readdir ''src/a'') brokenWorld)))) \<and>
   map_option fst (findMarkdownFiles 5 ''src'' brokenWorld) = Some [''src/b.md'']"
proof -
  have a: "wellFormed (root lockedWorld)" "depth (root lockedWorld) < 5"
    by code_simp+
  have b: "map_option fst (findMarkdownFiles 5 ''src'' lockedWorld) =
     Some [''src/a/x.md'', ''src/b/z.markdown'']"
    by code_simp
  have c: "fst (fs_readdir ''src/locked'' lockedWorld) = Inl EACCES"
    by code_simp
  have d: "nodeAt lockedWorld ''src/none'' = None"
    by code_simp
  have e: "path_join [''src'', ''locked''] = ''src/locked''"
    by code_simp
  have f: "nodeAt lockedWorld ''src/locked'' = Some (Dir False 1 [(''y.md'', File ''y'' 1)])"
    by code_simp
  have g: "fs_readdir ''src/a'' brokenWorld = (Inr [''x.md'', ''gone''], emit (Readdir ''src/a'') brokenWorld)"
    by code_simp
  have h: "scanEntries 5 ''src/a'' [''x.md'', ''gone''] [] (emit (Readdir ''src/a'') brokenWorld) =
     Some (Inl ENOENT,
       emit (Stat ''src/a/gone'') (emit (Stat ''src/a/x.md'') (emit (Readdir ''src/a'') brokenWorld)))"
    by code_simp
  have i: "map_option fst (findMarkdownFiles 5 ''src'' brokenWorld) = Some [''src/b.md'']"
    by code_simp
  from scanner_contains_errors [of lockedWorld 5 "''src''" "''src/locked''" "''src/none''"
      "''src''" "''locked''" "[''b'']" "[''src/a/x.md'']"]
    scanner_contains_errors [of brokenWorld 5 "''src/a''"] a b c d e f g h i
  show ?thesis by simp
qed

end
